theory Spec2Isabelle
  imports Main
begin

section \<open>JavaScript strings and characters\<close>

text \<open>
  A JavaScript string is modelled as a \<^typ>\<open>string\<close>: a list of code units, each below
  256 (ASCII and Latin-1).  Every string constant of the program is ASCII.  Within that
  range the white space of \<^verbatim>\<open>String.prototype.trim\<close> and of the regular
  expression class \<^verbatim>\<open>\s\<close> is TAB, LF, VT, FF, CR, SPACE and NBSP.
\<close>

definition isWs :: "char \<Rightarrow> bool" where
  "isWs c = (c \<in> set [CHR 0x09, CHR 0x0A, CHR 0x0B, CHR 0x0C, CHR 0x0D, CHR 0x20, CHR 0xA0])"

definition isDigit :: "char \<Rightarrow> bool" where
  "isDigit c = (c \<in> set ''0123456789'')"

definition isUpper :: "char \<Rightarrow> bool" where
  "isUpper c = (c \<in> set ''ABCDEFGHIJKLMNOPQRSTUVWXYZ'')"

definition isLower :: "char \<Rightarrow> bool" where
  "isLower c = (c \<in> set ''abcdefghijklmnopqrstuvwxyz'')"

text \<open>The class \<^verbatim>\<open>.\<close>: every code unit but a line terminator (LF, CR below 256).\<close>

definition isDot :: "char \<Rightarrow> bool" where
  "isDot c = (c \<noteq> CHR 0x0A \<and> c \<noteq> CHR 0x0D)"

text \<open>
  \<^verbatim>\<open>toLowerCase\<close> on one code unit below 256: A to Z, and the Latin-1 capitals
  0xC0 to 0xDE except the multiplication sign 0xD7, move up by 0x20.
\<close>

definition upperChars :: string where
  "upperChars = ''ABCDEFGHIJKLMNOPQRSTUVWXYZ'' @
     [CHR 0xC0, CHR 0xC1, CHR 0xC2, CHR 0xC3, CHR 0xC4, CHR 0xC5, CHR 0xC6, CHR 0xC7,
      CHR 0xC8, CHR 0xC9, CHR 0xCA, CHR 0xCB, CHR 0xCC, CHR 0xCD, CHR 0xCE, CHR 0xCF,
      CHR 0xD0, CHR 0xD1, CHR 0xD2, CHR 0xD3, CHR 0xD4, CHR 0xD5, CHR 0xD6,
      CHR 0xD8, CHR 0xD9, CHR 0xDA, CHR 0xDB, CHR 0xDC, CHR 0xDD, CHR 0xDE]"

definition lowerChars :: string where
  "lowerChars = ''abcdefghijklmnopqrstuvwxyz'' @
     [CHR 0xE0, CHR 0xE1, CHR 0xE2, CHR 0xE3, CHR 0xE4, CHR 0xE5, CHR 0xE6, CHR 0xE7,
      CHR 0xE8, CHR 0xE9, CHR 0xEA, CHR 0xEB, CHR 0xEC, CHR 0xED, CHR 0xEE, CHR 0xEF,
      CHR 0xF0, CHR 0xF1, CHR 0xF2, CHR 0xF3, CHR 0xF4, CHR 0xF5, CHR 0xF6,
      CHR 0xF8, CHR 0xF9, CHR 0xFA, CHR 0xFB, CHR 0xFC, CHR 0xFD, CHR 0xFE]"

definition toLowerCh :: "char \<Rightarrow> char" where
  "toLowerCh c = (case map_of (zip upperChars lowerChars) c of None \<Rightarrow> c | Some d \<Rightarrow> d)"

definition toLowerCase :: "string \<Rightarrow> string" where
  "toLowerCase s = map toLowerCh s"

definition trim :: "string \<Rightarrow> string" where
  "trim s = rev (dropWhile isWs (rev (dropWhile isWs s)))"

definition startsWith :: "string \<Rightarrow> string \<Rightarrow> bool" where
  "startsWith s p = (take (length p) s = p)"

definition endsWith :: "string \<Rightarrow> string \<Rightarrow> bool" where
  "endsWith s p = (length p \<le> length s \<and> drop (length s - length p) s = p)"

definition includesCh :: "string \<Rightarrow> char \<Rightarrow> bool" where
  "includesCh s c = (c \<in> set s)"

fun join :: "string \<Rightarrow> string list \<Rightarrow> string" where
  "join sep [] = []"
| "join sep [x] = x"
| "join sep (x # y # ys) = x @ sep @ join sep (y # ys)"

text \<open>\<^verbatim>\<open>s.split(c)\<close> for a one-character separator; the empty string gives one empty piece.\<close>

fun splitCh :: "char \<Rightarrow> string \<Rightarrow> string list" where
  "splitCh c [] = [[]]"
| "splitCh c (x # xs) =
     (if x = c then [] # splitCh c xs
      else (case splitCh c xs of [] \<Rightarrow> [[x]] | y # ys \<Rightarrow> (x # y) # ys))"

section \<open>Regular expressions with the backtracking semantics of ECMAScript\<close>

text \<open>
  The program is written with regular expressions; each is transliterated into a value of
  the type \<open>re\<close> and run by one matcher.  \<open>Rep m mx g a\<close> is a quantifier with at least \<open>m\<close> and
  at most \<open>mx\<close> iterations (\<open>None\<close>: unbounded), greedy when \<open>g\<close>; \<open>Grp n a\<close> is the
  capturing group number \<open>n\<close>; \<open>Bol\<close> and \<open>Eol\<close> are \<^verbatim>\<open>^\<close> and \<^verbatim>\<open>$\<close> without the
  multiline flag; \<open>Ahead\<close> and \<open>NotAhead\<close> are the lookaheads.
\<close>

datatype re =
    Cls "char \<Rightarrow> bool"
  | Eps
  | Seq re re
  | Alt re re
  | Rep nat "nat option" bool re
  | Grp nat re
  | Bol
  | Eol
  | Ahead re
  | NotAhead re

type_synonym caps = "nat \<Rightarrow> string option"

text \<open>A matcher state: the index reached, the input from there on, the captures.\<close>

type_synonym mstate = "nat \<times> string \<times> caps"

fun groups :: "re \<Rightarrow> nat list" where
  "groups (Cls P) = []"
| "groups Eps = []"
| "groups (Seq a b) = groups a @ groups b"
| "groups (Alt a b) = groups a @ groups b"
| "groups (Rep m mx g a) = groups a"
| "groups (Grp n a) = n # groups a"
| "groups Bol = []"
| "groups Eol = []"
| "groups (Ahead a) = groups a"
| "groups (NotAhead a) = groups a"

fun rsize :: "re \<Rightarrow> nat" where
  "rsize (Cls P) = 1"
| "rsize Eps = 1"
| "rsize (Seq a b) = Suc (rsize a + rsize b)"
| "rsize (Alt a b) = Suc (rsize a + rsize b)"
| "rsize (Rep m mx g a) = Suc (rsize a + m)"
| "rsize (Grp n a) = Suc (rsize a)"
| "rsize Bol = 1"
| "rsize Eol = 1"
| "rsize (Ahead a) = Suc (rsize a)"
| "rsize (NotAhead a) = Suc (rsize a)"

fun clear :: "nat list \<Rightarrow> caps \<Rightarrow> caps" where
  "clear [] c = c"
| "clear (n # ns) c = clear ns (c(n := None))"

fun decr :: "nat option \<Rightarrow> nat option" where
  "decr None = None"
| "decr (Some n) = Some (n - 1)"

text \<open>
  \<open>ms e st\<close> lists every way \<open>e\<close> matches at \<open>st\<close>, in the order in which a backtracking
  matcher tries them; the head is the match ECMAScript reports.  A quantifier clears the
  captures of its body before each iteration, and an iteration past the required ones
  that consumes nothing is dropped (the RepeatMatcher of the language definition).
\<close>

function ms :: "re \<Rightarrow> mstate \<Rightarrow> mstate list" where
  "ms (Cls P) (p, r, c) =
     (case r of [] \<Rightarrow> [] | x # xs \<Rightarrow> if P x then [(Suc p, xs, c)] else [])"
| "ms Eps st = [st]"
| "ms (Seq a b) st = concat (map (ms b) (ms a st))"
| "ms (Alt a b) st = ms a st @ ms b st"
| "ms (Grp n a) (p, r, c) =
     map (\<lambda>(p', r', c'). (p', r', c'(n \<mapsto> take (p' - p) r))) (ms a (p, r, c))"
| "ms Bol (p, r, c) = (if p = 0 then [(p, r, c)] else [])"
| "ms Eol (p, r, c) = (if r = [] then [(p, r, c)] else [])"
| "ms (Ahead a) (p, r, c) =
     (case ms a (p, r, c) of [] \<Rightarrow> [] | (p', r', c') # _ \<Rightarrow> [(p, r, c')])"
| "ms (NotAhead a) st = (if ms a st = [] then [st] else [])"
| "ms (Rep (Suc m) mx g a) (p, r, c) =
     (if mx = Some 0 then [(p, r, c)]
      else concat (map (ms (Rep m (decr mx) g a)) (ms a (p, r, clear (groups a) c))))"
| "ms (Rep 0 mx g a) (p, r, c) =
     (if mx = Some 0 then [(p, r, c)]
      else let more = concat (map (\<lambda>(p', r', c').
                   if length r' < length r then ms (Rep 0 (decr mx) g a) (p', r', c') else [])
                 (ms a (p, r, clear (groups a) c)))
           in if g then more @ [(p, r, c)] else (p, r, c) # more)"
  by pat_completeness auto
termination
  by (relation "measures [\<lambda>(e, st). rsize e, \<lambda>(e, (p, r, c)). length r]") auto

text \<open>
  The two equations of the quantifier are applied by hand in proofs; as rewrite rules
  they would unfold without end on an input that is not a constant.
\<close>

declare ms.simps(10,11) [simp del]

definition chr :: "char \<Rightarrow> re" where
  "chr c = Cls (\<lambda>x. x = c)"

text \<open>
  A character of a pattern under the \<^verbatim>\<open>i\<close> flag.  The patterns hold ASCII characters
  only, and below 256 an ASCII letter has exactly its other case as a variant.
\<close>

definition swapCase :: "char \<Rightarrow> char" where
  "swapCase c =
     (case map_of (zip (''abcdefghijklmnopqrstuvwxyz'' @ ''ABCDEFGHIJKLMNOPQRSTUVWXYZ'')
                       (''ABCDEFGHIJKLMNOPQRSTUVWXYZ'' @ ''abcdefghijklmnopqrstuvwxyz'')) c of
        None \<Rightarrow> c
      | Some d \<Rightarrow> d)"

definition chri :: "char \<Rightarrow> re" where
  "chri c = (let d = swapCase c in Cls (\<lambda>x. x = c \<or> x = d))"

definition oneOf :: "string \<Rightarrow> re" where
  "oneOf cs = Cls (\<lambda>x. x \<in> set cs)"

definition noneOf :: "string \<Rightarrow> re" where
  "noneOf cs = Cls (\<lambda>x. x \<notin> set cs)"

fun seqs :: "re list \<Rightarrow> re" where
  "seqs [] = Eps"
| "seqs [a] = a"
| "seqs (a # b # bs) = Seq a (seqs (b # bs))"

definition lit :: "string \<Rightarrow> re" where
  "lit s = seqs (map chr s)"

definition liti :: "string \<Rightarrow> re" where
  "liti s = seqs (map chri s)"

definition star :: "re \<Rightarrow> re" where
  "star a = Rep 0 None True a"

definition plus :: "re \<Rightarrow> re" where
  "plus a = Rep 1 None True a"

definition opt :: "re \<Rightarrow> re" where
  "opt a = Rep 0 (Some 1) True a"

definition ws :: re where
  "ws = Cls isWs"

definition anych :: re where
  "anych = Cls (\<lambda>x. True)"

definition dot :: re where
  "dot = Cls isDot"

definition digit :: re where
  "digit = Cls isDigit"

text \<open>The value of a capture where the program reads it as a string (\<^verbatim>\<open>$1\<close>, \<^verbatim>\<open>m[3] || ""\<close>).\<close>

definition cap :: "caps \<Rightarrow> nat \<Rightarrow> string" where
  "cap c n = (case c n of None \<Rightarrow> [] | Some s \<Rightarrow> s)"

text \<open>
  \<open>search e p r\<close> is \<^verbatim>\<open>exec\<close> without the global flag on the input \<open>r\<close> that starts at
  index \<open>p\<close>: the text before the first match, the match, the text after it and the
  captures.
\<close>

fun search :: "re \<Rightarrow> nat \<Rightarrow> string \<Rightarrow> (string \<times> string \<times> string \<times> caps) option" where
  "search e p [] =
     (case ms e (p, [], \<lambda>n. None) of [] \<Rightarrow> None | (p', r', c') # _ \<Rightarrow> Some ([], [], [], c'))"
| "search e p (x # xs) =
     (case ms e (p, x # xs, \<lambda>n. None) of
        (p', r', c') # _ \<Rightarrow> Some ([], take (p' - p) (x # xs), r', c')
      | [] \<Rightarrow> (case search e (Suc p) xs of
                 None \<Rightarrow> None
               | Some (pre, m, post, c) \<Rightarrow> Some (x # pre, m, post, c)))"

definition rmatch :: "re \<Rightarrow> string \<Rightarrow> caps option" where
  "rmatch e s = (case search e 0 s of None \<Rightarrow> None | Some (pre, m, post, c) \<Rightarrow> Some c)"

definition rtest :: "re \<Rightarrow> string \<Rightarrow> bool" where
  "rtest e s = (search e 0 s \<noteq> None)"

text \<open>\<^verbatim>\<open>s.replace(e, f)\<close> without the global flag: the first match only.\<close>

definition replace1 :: "re \<Rightarrow> (string \<Rightarrow> caps \<Rightarrow> string) \<Rightarrow> string \<Rightarrow> string" where
  "replace1 e f s =
     (case search e 0 s of None \<Rightarrow> s | Some (pre, m, post, c) \<Rightarrow> pre @ f m c @ post)"

text \<open>
  \<^verbatim>\<open>s.replace(e, f)\<close> with the global flag.  \<open>rg e f k p r\<close> is at index \<open>p\<close> with \<open>r\<close> left
  to read; \<open>k\<close> counts the characters still inside the previous match.  After an empty
  match the next attempt starts one character further, as \<^verbatim>\<open>lastIndex\<close> does.
\<close>

fun rg :: "re \<Rightarrow> (string \<Rightarrow> caps \<Rightarrow> string) \<Rightarrow> nat \<Rightarrow> nat \<Rightarrow> string \<Rightarrow> string" where
  "rg e f (Suc k) p [] = []"
| "rg e f (Suc k) p (x # xs) = rg e f k (Suc p) xs"
| "rg e f 0 p [] =
     (case ms e (p, [], \<lambda>n. None) of [] \<Rightarrow> [] | (p', r', c') # _ \<Rightarrow> f [] c')"
| "rg e f 0 p (x # xs) =
     (case ms e (p, x # xs, \<lambda>n. None) of
        [] \<Rightarrow> x # rg e f 0 (Suc p) xs
      | (p', r', c') # _ \<Rightarrow>
          f (take (p' - p) (x # xs)) c' @
          (if p' = p then x # rg e f 0 (Suc p) xs else rg e f (p' - p - 1) (Suc p) xs))"

definition replaceAll :: "re \<Rightarrow> (string \<Rightarrow> caps \<Rightarrow> string) \<Rightarrow> string \<Rightarrow> string" where
  "replaceAll e f s = rg e f 0 0 s"



section \<open>Utilities of mdToHtml.js\<close>

definition escapeHtml :: "string \<Rightarrow> string" where
  "escapeHtml str =
     replaceAll (chr (CHR 0x27)) (\<lambda>m c. ''&#39;'')
       (replaceAll (chr (CHR 0x22)) (\<lambda>m c. ''&quot;'')
         (replaceAll (chr CHR ''>'') (\<lambda>m c. ''&gt;'')
           (replaceAll (chr CHR ''<'') (\<lambda>m c. ''&lt;'')
             (replaceAll (chr CHR ''&'') (\<lambda>m c. ''&amp;'') str))))"

definition unescapeHtml :: "string \<Rightarrow> string" where
  "unescapeHtml str =
     replaceAll (lit ''&amp;'') (\<lambda>m c. ''&'')
       (replaceAll (lit ''&#39;'') (\<lambda>m c. [CHR 0x27])
         (replaceAll (lit ''&quot;'') (\<lambda>m c. [CHR 0x22])
           (replaceAll (lit ''&gt;'') (\<lambda>m c. ''>'')
             (replaceAll (lit ''&lt;'') (\<lambda>m c. ''<'') str))))"

text \<open>The source value: \<open>None\<close> stands for \<^verbatim>\<open>null\<close> and \<^verbatim>\<open>undefined\<close>.\<close>

definition normalizeNewlines :: "string option \<Rightarrow> string" where
  "normalizeNewlines md =
     replaceAll (chr (CHR 0x0D)) (\<lambda>m c. [CHR 0x0A])
       (replaceAll (lit [CHR 0x0D, CHR 0x0A]) (\<lambda>m c. [CHR 0x0A])
         (case md of None \<Rightarrow> [] | Some s \<Rightarrow> s))"

definition escapeAttr :: "string \<Rightarrow> string" where
  "escapeAttr str = replaceAll (chr (CHR 0x60)) (\<lambda>m c. ''&#96;'') (escapeHtml str)"

definition safeLinkHref :: "string \<Rightarrow> bool \<Rightarrow> string" where
  "safeLinkHref href allowUnsafeLinks =
     (let h = trim href in
      if h = [] then []
      else if allowUnsafeLinks then h
      else let lower = toLowerCase h in
        if startsWith lower ''javascript:'' \<or> startsWith lower ''vbscript:'' then []
        else if startsWith lower ''data:'' then []
        else h)"

section \<open>The fallback renderer: recognising blocks\<close>

definition splitLines :: "string option \<Rightarrow> string list" where
  "splitLines md = splitCh (CHR 0x0A) (normalizeNewlines md)"

text \<open>
  \<^verbatim>\<open>/^(\s*)(```|~~~)\s*([A-Za-z0-9_-]+)?\s*$/\<close>: the anchor \<^verbatim>\<open>^\<close>, then the rest of
  the pattern.
\<close>

definition isLangCh :: "char \<Rightarrow> bool" where
  "isLangCh x = (isUpper x \<or> isLower x \<or> isDigit x \<or> x = CHR ''_'' \<or> x = CHR ''-'')"

definition re_fenceLine :: re where
  "re_fenceLine = seqs [Grp 1 (star ws), Grp 2 (Alt (lit ''```'') (lit ''~~~'')), star ws,
     opt (Grp 3 (plus (Cls isLangCh))), star ws, Eol]"

definition re_fence :: re where
  "re_fence = Seq Bol re_fenceLine"

record fence =
  indent :: nat
  marker :: string
  lang :: string

definition parseFence :: "string \<Rightarrow> fence option" where
  "parseFence line =
     (case rmatch re_fence line of
        None \<Rightarrow> None
      | Some m \<Rightarrow> Some \<lparr>indent = length (cap m 1), marker = cap m 2, lang = cap m 3\<rparr>)"

text \<open>\<^verbatim>\<open>/^(\*\s*){3,}$/\<close>, and the same for \<^verbatim>\<open>-\<close> and \<^verbatim>\<open>_\<close>.\<close>

definition re_break :: "char \<Rightarrow> re" where
  "re_break k = seqs [Bol, Rep 3 None True (Grp 1 (Seq (chr k) (star ws))), Eol]"

definition isThematicBreak :: "string \<Rightarrow> bool" where
  "isThematicBreak line =
     (let t = trim line
      in rtest (re_break CHR ''*'') t \<or> rtest (re_break CHR ''-'') t \<or> rtest (re_break CHR ''_'') t)"

text \<open>\<^verbatim>\<open>/^(#{1,6})\s+(.+?)\s*#*\s*$/\<close>\<close>

definition re_atx :: re where
  "re_atx = seqs [Bol, Grp 1 (Rep 1 (Some 6) True (chr CHR ''#'')), plus ws,
     Grp 2 (Rep 1 None False dot), star ws, star (chr CHR ''#''), star ws, Eol]"

definition parseAtxHeading :: "string \<Rightarrow> (nat \<times> string) option" where
  "parseAtxHeading line =
     (case rmatch re_atx line of
        None \<Rightarrow> None
      | Some m \<Rightarrow> Some (length (cap m 1), cap m 2))"

text \<open>\<^verbatim>\<open>/^=+$/\<close> and \<^verbatim>\<open>/^-+$/\<close>\<close>

definition re_underline :: "char \<Rightarrow> re" where
  "re_underline k = seqs [Bol, plus (chr k), Eol]"

text \<open>
  The functions that take \<open>lines\<close> and an index are called with \<open>i < length lines\<close> only
  (the main loop's condition), so \<open>lines ! i\<close> is the line the program reads.
\<close>

definition parseSetextHeading :: "string list \<Rightarrow> nat \<Rightarrow> (nat \<times> string \<times> nat) option" where
  "parseSetextHeading lines i =
     (if i + 1 \<ge> length lines then None
      else let l1 = lines ! i; l2 = lines ! (i + 1) in
        if trim l1 = [] then None
        else let t = trim l2 in
          if \<not> rtest (re_underline CHR ''='') t \<and> \<not> rtest (re_underline CHR ''-'') t then None
          else Some (if rtest (re_underline CHR ''='') t then 1 else 2, trim l1, i + 2))"

datatype block =
    Heading nat string
  | Hr
  | Code string string
  | Blockquote "string list"
  | ListB bool "string list"
  | TableB "string list" "string list" "string list list"
  | Paragraph "string list"

text \<open>\<^verbatim>\<open>/^\s*>/\<close> and \<^verbatim>\<open>/^\s*>\s?/\<close>\<close>

definition re_quote :: re where
  "re_quote = seqs [Bol, star ws, chr CHR ''>'']"

definition re_quoteStrip :: re where
  "re_quoteStrip = seqs [Bol, star ws, chr CHR ''>'', opt ws]"

text \<open>
  Each \<^verbatim>\<open>while (j < lines.length)\<close> loop of a block parser is a recursion over the lines
  from \<open>j\<close> on, with the index and the buffer the loop fills.
\<close>

fun quoteLoop :: "string list \<Rightarrow> nat \<Rightarrow> string list \<Rightarrow> string list \<times> nat" where
  "quoteLoop [] j buf = (buf, j)"
| "quoteLoop (line # rest) j buf =
     (if \<not> rtest re_quote line then (buf, j)
      else quoteLoop rest (Suc j) (buf @ [replace1 re_quoteStrip (\<lambda>m c. []) line]))"

definition parseBlockquote :: "string list \<Rightarrow> nat \<Rightarrow> (block \<times> nat) option" where
  "parseBlockquote lines i =
     (if \<not> rtest re_quote (lines ! i) then None
      else (case quoteLoop (drop i lines) i [] of (buf, j) \<Rightarrow> Some (Blockquote buf, j)))"

text \<open>\<^verbatim>\<open>/^(\s*)([-+*])\s+(.+)$/\<close> and \<^verbatim>\<open>/^(\s*)(\d+)[.)]\s+(.+)$/\<close>\<close>

definition re_ul :: re where
  "re_ul = seqs [Bol, Grp 1 (star ws), Grp 2 (oneOf ''-+*''), plus ws, Grp 3 (plus dot), Eol]"

definition re_ol :: re where
  "re_ol = seqs [Bol, Grp 1 (star ws), Grp 2 (plus digit), oneOf ''.)'', plus ws,
     Grp 3 (plus dot), Eol]"

fun listLoop :: "bool \<Rightarrow> nat \<Rightarrow> string list \<Rightarrow> nat \<Rightarrow> string list \<Rightarrow> string list \<times> nat" where
  "listLoop isOrdered indent0 [] j items = (items, j)"
| "listLoop isOrdered indent0 (line # rest) j items =
     (if trim line = [] then (items, j)
      else (case rmatch (if isOrdered then re_ol else re_ul) line of
              None \<Rightarrow> (items, j)
            | Some m \<Rightarrow>
                if length (cap m 1) \<noteq> indent0 then (items, j)
                else listLoop isOrdered indent0 rest (Suc j) (items @ [cap m 3])))"

definition parseList :: "string list \<Rightarrow> nat \<Rightarrow> (block \<times> nat) option" where
  "parseList lines i =
     (let start = lines ! i; mu = rmatch re_ul start; mo = rmatch re_ol start in
      if mu = None \<and> mo = None then None
      else let isOrdered = (mo \<noteq> None);
               indent0 = (case mu of Some m \<Rightarrow> length (cap m 1)
                          | None \<Rightarrow> (case mo of Some m \<Rightarrow> length (cap m 1) | None \<Rightarrow> 0))
           in (case listLoop isOrdered indent0 (drop i lines) i [] of
                 (items, j) \<Rightarrow> Some (ListB isOrdered items, j)))"

text \<open>\<^verbatim>\<open>/^\|?(\s*:?-{3,}:?\s*\|)+\s*:?-{3,}:?\s*\|?\s*$/\<close>\<close>

definition re_tableCell :: re where
  "re_tableCell = seqs [star ws, opt (chr CHR '':''), Rep 3 None True (chr CHR ''-''),
     opt (chr CHR '':''), star ws]"

definition re_tableSep :: re where
  "re_tableSep = seqs [Bol, opt (chr CHR ''|''),
     plus (Grp 1 (Seq re_tableCell (chr CHR ''|''))), re_tableCell, opt (chr CHR ''|''),
     star ws, Eol]"

definition parseRow :: "string \<Rightarrow> string list" where
  "parseRow row =
     (let r = trim row;
          r = (if startsWith r ''|'' then drop 1 r else r);
          r = (if endsWith r ''|'' then butlast r else r)
      in map trim (splitCh CHR ''|'' r))"

definition alignOf :: "string \<Rightarrow> string" where
  "alignOf c =
     (let t = trim c; left = startsWith t '':''; right = endsWith t '':'' in
      if left \<and> right then ''center''
      else if right then ''right''
      else if left then ''left''
      else [])"

fun rowLoop :: "string list \<Rightarrow> nat \<Rightarrow> string list list \<Rightarrow> string list list \<times> nat" where
  "rowLoop [] j rows = (rows, j)"
| "rowLoop (line # rest) j rows =
     (if includesCh line CHR ''|'' \<and> trim line \<noteq> []
      then rowLoop rest (Suc j) (rows @ [parseRow line])
      else (rows, j))"

definition parseTable :: "string list \<Rightarrow> nat \<Rightarrow> (block \<times> nat) option" where
  "parseTable lines i =
     (let headerLine = lines ! i;
          sepLine = (if i + 1 < length lines then lines ! (i + 1) else []) in
      if \<not> includesCh headerLine CHR ''|'' then None
      else if \<not> rtest re_tableSep (trim sepLine) then None
      else (case rowLoop (drop (i + 2) lines) (i + 2) [] of
              (rows, j) \<Rightarrow>
                Some (TableB (parseRow headerLine) (map alignOf (parseRow sepLine)) rows, j)))"

text \<open>\<^verbatim>\<open>/^( {4,}|\t)/\<close> and \<^verbatim>\<open>/^( {4}|\t)/\<close>\<close>

definition re_indented :: re where
  "re_indented = seqs [Bol, Grp 1 (Alt (Rep 4 None True (chr CHR '' '')) (chr (CHR 0x09)))]"

definition re_indentStrip :: re where
  "re_indentStrip = seqs [Bol, Grp 1 (Alt (Rep 4 (Some 4) True (chr CHR '' '')) (chr (CHR 0x09)))]"

fun indentLoop :: "string list \<Rightarrow> nat \<Rightarrow> string list \<Rightarrow> string list \<times> nat" where
  "indentLoop [] j buf = (buf, j)"
| "indentLoop (line # rest) j buf =
     (if \<not> rtest re_indented line \<and> trim line \<noteq> [] then (buf, j)
      else if trim line = [] \<and> buf = [] then indentLoop rest (Suc j) buf
      else indentLoop rest (Suc j) (buf @ [replace1 re_indentStrip (\<lambda>m c. []) line]))"

definition parseIndentedCode :: "string list \<Rightarrow> nat \<Rightarrow> (block \<times> nat) option" where
  "parseIndentedCode lines i =
     (if \<not> rtest re_indented (lines ! i) then None
      else (case indentLoop (drop i lines) i [] of
              (buf, j) \<Rightarrow> Some (Code [] (join [CHR 0x0A] buf), j)))"

text \<open>\<^verbatim>\<open>/^(\s*)([-+*])\s+/\<close> and \<^verbatim>\<open>/^(\s*)(\d+)[.)]\s+/\<close>, the tests of parseParagraph.\<close>

definition re_ulStart :: re where
  "re_ulStart = seqs [Bol, Grp 1 (star ws), Grp 2 (oneOf ''-+*''), plus ws]"

definition re_olStart :: re where
  "re_olStart = seqs [Bol, Grp 1 (star ws), Grp 2 (plus digit), oneOf ''.)'', plus ws]"

fun paragraphLoop :: "string list \<Rightarrow> string list \<Rightarrow> nat \<Rightarrow> string list \<Rightarrow> string list \<times> nat" where
  "paragraphLoop lines [] j buf = (buf, j)"
| "paragraphLoop lines (line # rest) j buf =
     (if trim line = [] then (buf, j)
      else if parseFence line \<noteq> None \<or> parseAtxHeading line \<noteq> None \<or> isThematicBreak line
        then (buf, j)
      else if rtest re_quote line then (buf, j)
      else if rtest re_ulStart line then (buf, j)
      else if rtest re_olStart line then (buf, j)
      else if parseTable lines j \<noteq> None then (buf, j)
      else if rtest re_indented line then (buf, j)
      else paragraphLoop lines rest (Suc j) (buf @ [line]))"

definition parseParagraph :: "string list \<Rightarrow> nat \<Rightarrow> block \<times> nat" where
  "parseParagraph lines i =
     (case paragraphLoop lines (drop i lines) i [] of (buf, j) \<Rightarrow> (Paragraph buf, j))"

text \<open>
  The closing line of a fence: \<^verbatim>\<open>new RegExp("^\\s*" + marker + "\\s*$")\<close>, the marker's
  backticks escaped.  The marker is the text of group 2 of the opening line, so the
  pattern holds it as literal characters.
\<close>

definition re_fenceEnd :: "string \<Rightarrow> re" where
  "re_fenceEnd mk = seqs [Bol, star ws, lit mk, star ws, Eol]"

fun fenceLoop :: "string \<Rightarrow> string list \<Rightarrow> nat \<Rightarrow> string list \<Rightarrow> string list \<times> nat" where
  "fenceLoop mk [] j buf = (buf, j)"
| "fenceLoop mk (l # rest) j buf =
     (if rtest (re_fenceEnd mk) l then (buf, j)
      else fenceLoop mk rest (Suc j) (buf @ [l]))"

text \<open>
  One iteration of the main loop of fallbackMdToHtml at the cursor \<open>i\<close>: the block it
  pushes, if any, and the new cursor.  parseParagraph returns an object, which is truthy,
  so \<^verbatim>\<open>if (p)\<close> always takes its branch and the single-line fallback after it is never
  reached.
\<close>

definition segStep :: "string list \<Rightarrow> nat \<Rightarrow> block option \<times> nat" where
  "segStep lines i =
     (let line = lines ! i in
      if trim line = [] then (None, i + 1)
      else (case parseFence line of
        Some fence \<Rightarrow>
          (case fenceLoop (marker fence) (drop (i + 1) lines) (i + 1) [] of
             (buf, j) \<Rightarrow> (Some (Code (lang fence) (join [CHR 0x0A] buf)),
                          if j < length lines then j + 1 else j))
      | None \<Rightarrow> (case parseIndentedCode lines i of
        Some (b, n) \<Rightarrow> (Some b, n)
      | None \<Rightarrow> (case parseSetextHeading lines i of
        Some (level, txt, n) \<Rightarrow> (Some (Heading level txt), n)
      | None \<Rightarrow> (case parseAtxHeading line of
        Some (level, txt) \<Rightarrow> (Some (Heading level txt), i + 1)
      | None \<Rightarrow>
        if isThematicBreak line then (Some Hr, i + 1)
        else (case parseBlockquote lines i of
        Some (b, n) \<Rightarrow> (Some b, n)
      | None \<Rightarrow> (case parseTable lines i of
        Some (b, n) \<Rightarrow> (Some b, n)
      | None \<Rightarrow> (case parseList lines i of
        Some (b, n) \<Rightarrow> (Some b, n)
      | None \<Rightarrow> (case parseParagraph lines i of
        (b, n) \<Rightarrow> (Some b, n))))))))))"

text \<open>
  The main loop.  It may not return, so it is a partial function: \<open>None\<close> is the loop that
  runs forever, \<open>Some blocks\<close> the list it leaves.
\<close>

partial_function (option) segLoop :: "string list \<Rightarrow> nat \<Rightarrow> block list \<Rightarrow> block list option" where
  "segLoop lines i blocks =
     (if i < length lines
      then (case segStep lines i of
              (None, i') \<Rightarrow> segLoop lines i' blocks
            | (Some b, i') \<Rightarrow> segLoop lines i' (blocks @ [b]))
      else Some blocks)"

section \<open>The fallback renderer: inline text\<close>

text \<open>
  The options as the renderer reads them: \<^verbatim>\<open>!!options.allowUnsafeLinks\<close> and
  \<^verbatim>\<open>options.linkTargetBlank !== false\<close>.  With no options given these are false and true.
\<close>

record opts =
  allowUnsafeLinks :: bool
  linkTargetBlank :: bool

definition defaultOpts :: opts where
  "defaultOpts = \<lparr>allowUnsafeLinks = False, linkTargetBlank = True\<rparr>"

definition targetAttr :: "opts \<Rightarrow> string" where
  \<open>targetAttr options =
     (if linkTargetBlank options then '' target="_blank" rel="noopener noreferrer"'' else [])\<close>

text \<open>A title is an optional capture; undefined and the empty string are both falsy.\<close>

definition titleAttr :: "string option \<Rightarrow> string" where
  \<open>titleAttr title =
     (case title of
        None \<Rightarrow> []
      | Some t \<Rightarrow> if t = [] then [] else '' title="'' @ escapeAttr t @ ''"'')\<close>

definition codeRepl :: "string \<Rightarrow> string \<Rightarrow> string" where
  "codeRepl p1 code = p1 @ ''<code>'' @ code @ ''</code>''"

definition imageRepl :: "opts \<Rightarrow> string \<Rightarrow> string \<Rightarrow> string option \<Rightarrow> string" where
  \<open>imageRepl options alt url title =
     (let href = safeLinkHref (unescapeHtml url) (allowUnsafeLinks options) in
      if href = [] then []
      else ''<img src="'' @ escapeAttr href @ ''" alt="'' @ escapeAttr alt @ ''"'' @
           titleAttr title @ ''/>'')\<close>

definition linkRepl :: "opts \<Rightarrow> string \<Rightarrow> string \<Rightarrow> string option \<Rightarrow> string" where
  \<open>linkRepl options label url title =
     (let href = safeLinkHref (unescapeHtml url) (allowUnsafeLinks options);
          safe = (if href = [] then ''#'' else href)
      in ''<a href="'' @ escapeAttr safe @ ''"'' @ titleAttr title @ targetAttr options @
         ''>'' @ label @ ''</a>'')\<close>

definition autolinkRepl :: "opts \<Rightarrow> string \<Rightarrow> string" where
  \<open>autolinkRepl options url =
     (let h = safeLinkHref (unescapeHtml url) (allowUnsafeLinks options);
          href = (if h = [] then ''#'' else h)
      in ''<a href="'' @ escapeAttr href @ ''"'' @ targetAttr options @ ''>'' @ url @ ''</a>'')\<close>

definition bareUrlRepl :: "opts \<Rightarrow> string \<Rightarrow> string \<Rightarrow> string" where
  \<open>bareUrlRepl options p1 url =
     (let href = safeLinkHref (unescapeHtml url) (allowUnsafeLinks options) in
      if href = [] then p1 @ url
      else p1 @ ''<a href="'' @ escapeAttr href @ ''"'' @ targetAttr options @ ''>'' @ url @
           ''</a>'')\<close>

text \<open>\<^verbatim>\<open>/(^|[^`])`([^`]+)`(?!`)/g\<close>\<close>

definition re_code :: re where
  "re_code = seqs [Grp 1 (Alt Bol (noneOf ''`'')), chr (CHR 0x60), Grp 2 (plus (noneOf ''`'')),
     chr (CHR 0x60), NotAhead (chr (CHR 0x60))]"

text \<open>
  The tail \<^verbatim>\<open>\((\s*[^)\s]+)(?:\s+"([^"]*)")?\s*\)\<close> that the image and the link pattern
  share: the url is group 2, the title group 3.
\<close>

definition re_target :: re where
  "re_target = seqs [chr CHR ''('',
     Grp 2 (Seq (star ws) (plus (Cls (\<lambda>x. x \<noteq> CHR '')'' \<and> \<not> isWs x)))),
     opt (seqs [plus ws, chr (CHR 0x22), Grp 3 (star (Cls (\<lambda>x. x \<noteq> CHR 0x22))), chr (CHR 0x22)]),
     star ws, chr CHR '')'']"

text \<open>\<^verbatim>\<open>/!\[([^\]]*)\]\((\s*[^)\s]+)(?:\s+"([^"]*)")?\s*\)/g\<close>\<close>

definition re_image :: re where
  "re_image = seqs [chr CHR ''!'', chr CHR ''['', Grp 1 (star (noneOf '']'')), chr CHR '']'',
     re_target]"

text \<open>\<^verbatim>\<open>/\[([^\]]+)\]\((\s*[^)\s]+)(?:\s+"([^"]*)")?\s*\)/g\<close>\<close>

definition re_link :: re where
  "re_link = seqs [chr CHR ''['', Grp 1 (plus (noneOf '']'')), chr CHR '']'', re_target]"

text \<open>\<^verbatim>\<open>/&lt;((https?:\/\/|mailto:)[^&\s]+)&gt;/gi\<close>\<close>

definition re_autolink :: re where
  "re_autolink = seqs [liti ''&lt;'',
     Grp 1 (Seq (Grp 2 (Alt (seqs [liti ''http'', opt (chri CHR ''s''), liti ''://''])
                            (liti ''mailto:'')))
                (plus (Cls (\<lambda>x. x \<noteq> CHR ''&'' \<and> \<not> isWs x)))),
     liti ''&gt;'']"

text \<open>\<^verbatim>\<open>/(^|[\s(])((https?:\/\/)[^\s<]+)/g\<close>\<close>

definition re_bareUrl :: re where
  "re_bareUrl = seqs [Grp 1 (Alt Bol (Cls (\<lambda>x. isWs x \<or> x = CHR ''(''))),
     Grp 2 (Seq (Grp 3 (seqs [lit ''http'', opt (chr CHR ''s''), lit ''://'']))
                (plus (Cls (\<lambda>x. \<not> isWs x \<and> x \<noteq> CHR ''<''))))]"

text \<open>\<^verbatim>\<open>/~~([^~\n]+)~~/g\<close>\<close>

definition re_strike :: re where
  "re_strike = seqs [lit ''~~'', Grp 1 (plus (Cls (\<lambda>x. x \<noteq> CHR ''~'' \<and> x \<noteq> CHR 0x0A))),
     lit ''~~'']"

text \<open>\<^verbatim>\<open>/\*\*([\s\S]+?)\*\*/g\<close> and \<^verbatim>\<open>/__([\s\S]+?)__/g\<close>\<close>

definition re_bold :: "char \<Rightarrow> re" where
  "re_bold k = seqs [lit [k, k], Grp 1 (Rep 1 None False anych), lit [k, k]]"

text \<open>\<^verbatim>\<open>/(^|[^*])\*([^*\n]+)\*(?!\*)/g\<close> and \<^verbatim>\<open>/(^|[^_])_([^_\n]+)_(?!_)/g\<close>\<close>

definition re_italic :: "char \<Rightarrow> re" where
  "re_italic k = seqs [Grp 1 (Alt Bol (Cls (\<lambda>x. x \<noteq> k))), chr k,
     Grp 2 (plus (Cls (\<lambda>x. x \<noteq> k \<and> x \<noteq> CHR 0x0A))), chr k, NotAhead (chr k)]"

text \<open>The stages of renderInline after the input has been escaped, in the program's order.\<close>

definition stageCode :: "string \<Rightarrow> string" where
  "stageCode s = replaceAll re_code (\<lambda>m c. codeRepl (cap c 1) (cap c 2)) s"

definition stageImages :: "opts \<Rightarrow> string \<Rightarrow> string" where
  "stageImages options s =
     replaceAll re_image (\<lambda>m c. imageRepl options (cap c 1) (cap c 2) (c 3)) s"

definition stageLinks :: "opts \<Rightarrow> string \<Rightarrow> string" where
  "stageLinks options s =
     replaceAll re_link (\<lambda>m c. linkRepl options (cap c 1) (cap c 2) (c 3)) s"

definition stageAutolinks :: "opts \<Rightarrow> string \<Rightarrow> string" where
  "stageAutolinks options s = replaceAll re_autolink (\<lambda>m c. autolinkRepl options (cap c 1)) s"

definition stageBareUrls :: "opts \<Rightarrow> string \<Rightarrow> string" where
  "stageBareUrls options s =
     replaceAll re_bareUrl (\<lambda>m c. bareUrlRepl options (cap c 1) (cap c 2)) s"

definition stageStrike :: "string \<Rightarrow> string" where
  "stageStrike s = replaceAll re_strike (\<lambda>m c. ''<del>'' @ cap c 1 @ ''</del>'') s"

definition stageBold :: "string \<Rightarrow> string" where
  "stageBold s =
     replaceAll (re_bold CHR ''_'') (\<lambda>m c. ''<strong>'' @ cap c 1 @ ''</strong>'')
       (replaceAll (re_bold CHR ''*'') (\<lambda>m c. ''<strong>'' @ cap c 1 @ ''</strong>'') s)"

definition stageItalic :: "string \<Rightarrow> string" where
  "stageItalic s =
     replaceAll (re_italic CHR ''_'') (\<lambda>m c. cap c 1 @ ''<em>'' @ cap c 2 @ ''</em>'')
       (replaceAll (re_italic CHR ''*'') (\<lambda>m c. cap c 1 @ ''<em>'' @ cap c 2 @ ''</em>'') s)"

definition renderInline :: "string \<Rightarrow> opts \<Rightarrow> string" where
  "renderInline txt options =
     stageItalic (stageBold (stageStrike (stageBareUrls options (stageAutolinks options
       (stageLinks options (stageImages options (stageCode (escapeHtml txt))))))))"

section \<open>The fallback renderer: blocks to HTML\<close>

text \<open>A number as \<^verbatim>\<open>"<h" + block.level\<close> prints it.\<close>

definition digitCh :: "nat \<Rightarrow> char" where
  "digitCh n = ''0123456789'' ! n"

function showNat :: "nat \<Rightarrow> string" where
  "showNat n = (if n < 10 then [digitCh n] else showNat (n div 10) @ [digitCh (n mod 10)])"
  by pat_completeness auto
termination
  by (relation "measure id") auto

text \<open>\<^verbatim>\<open>/^\[( |x|X)\]\s+(.*)$/\<close>\<close>

definition re_task :: re where
  "re_task = seqs [Bol, chr CHR ''['', Grp 1 (Alt (chr CHR '' '') (Alt (chr CHR ''x'') (chr CHR ''X''))),
     chr CHR '']'', plus ws, Grp 2 (star dot), Eol]"

definition renderItem :: "opts \<Rightarrow> string \<Rightarrow> string" where
  \<open>renderItem options it =
     (case rmatch re_task it of
        Some m \<Rightarrow>
          (let checked = (toLowerCase (cap m 1) = ''x'');
               cb = ''<input type="checkbox" disabled'' @ (if checked then '' checked'' else []) @ ''/> ''
           in ''<li class="task-list-item">'' @ cb @ renderInline (cap m 2) options @ ''</li>'')
      | None \<Rightarrow> ''<li>'' @ renderInline it options @ ''</li>'')\<close>

text \<open>\<^verbatim>\<open>block.aligns[idx]\<close>: undefined past the end, and then falsy like the empty string.\<close>

definition alignStyle :: "string list \<Rightarrow> nat \<Rightarrow> string" where
  \<open>alignStyle aligns idx =
     (if idx < length aligns \<and> aligns ! idx \<noteq> []
      then '' style="text-align:'' @ aligns ! idx @ '';"'' else [])\<close>

definition renderCells :: "opts \<Rightarrow> string \<Rightarrow> string list \<Rightarrow> string list \<Rightarrow> string" where
  "renderCells options tag aligns cells =
     concat (map (\<lambda>(idx, c). ''<'' @ tag @ alignStyle aligns idx @ ''>'' @ renderInline c options @
                              ''</'' @ tag @ ''>'')
                 (enumerate 0 cells))"

text \<open>
  renderBlock.  A blockquote is rendered by fallbackMdToHtml itself on its inner lines;
  that call is the parameter \<open>rec\<close>, and it may not return.
\<close>

definition renderBlock :: "(string option \<Rightarrow> string option) \<Rightarrow> block \<Rightarrow> opts \<Rightarrow> string option" where
  "renderBlock rec b options =
     (case b of
        Heading level txt \<Rightarrow>
          Some (''<h'' @ showNat level @ ''>'' @ renderInline txt options @ ''</h'' @ showNat level @ ''>'')
      | Hr \<Rightarrow> Some ''<hr/>''
      | Code lng content \<Rightarrow>
          Some (''<pre><code'' @
                (if lng = [] then [] else '' class='' @ [CHR 0x22] @ ''language-'' @ escapeAttr lng @ [CHR 0x22]) @
                ''>'' @ escapeHtml content @ ''</code></pre>'')
      | Blockquote ls \<Rightarrow>
          (case rec (Some (join [CHR 0x0A] ls)) of
             None \<Rightarrow> None
           | Some inner \<Rightarrow> Some (''<blockquote>'' @ inner @ ''</blockquote>''))
      | ListB ordered items \<Rightarrow>
          (let tag = (if ordered then ''ol'' else ''ul'')
           in Some (''<'' @ tag @ ''>'' @ concat (map (renderItem options) items) @ ''</'' @ tag @ ''>''))
      | TableB headers aligns rows \<Rightarrow>
          Some (''<table><thead><tr>'' @ renderCells options ''th'' aligns headers @
                ''</tr></thead><tbody>'' @
                concat (map (\<lambda>r. ''<tr>'' @ renderCells options ''td'' aligns r @ ''</tr>'') rows) @
                ''</tbody></table>'')
      | Paragraph ls \<Rightarrow>
          Some (''<p>'' @
                replaceAll (chr (CHR 0x0A)) (\<lambda>m c. ''<br/>'') (renderInline (join [CHR 0x0A] ls) options) @
                ''</p>''))"

text \<open>\<^verbatim>\<open>blocks.map(b => renderBlock(b, opts))\<close>, stopping where a block does not return.\<close>

fun mapOpt :: "('a \<Rightarrow> 'b option) \<Rightarrow> 'a list \<Rightarrow> 'b list option" where
  "mapOpt f [] = Some []"
| "mapOpt f (x # xs) =
     (case f x of
        None \<Rightarrow> None
      | Some y \<Rightarrow> (case mapOpt f xs of None \<Rightarrow> None | Some ys \<Rightarrow> Some (y # ys)))"

lemma mapOpt_mono [partial_function_mono]:
  assumes "\<And>x. mono_option (\<lambda>f. F f x)"
  shows "mono_option (\<lambda>f. mapOpt (F f) xs)"
proof (induction xs)
  case Nil
  show ?case by (simp add: option.const_mono)
next
  case (Cons x xs)
  have "mono_option (\<lambda>f. Option.bind (F f x) (\<lambda>y. Option.bind (mapOpt (F f) xs) (\<lambda>ys. Some (y # ys))))"
    by (intro bind_mono assms Cons option.const_mono)
  moreover have "(\<lambda>f. mapOpt (F f) (x # xs)) =
      (\<lambda>f. Option.bind (F f x) (\<lambda>y. Option.bind (mapOpt (F f) xs) (\<lambda>ys. Some (y # ys))))"
    by (auto simp: fun_eq_iff split: option.splits)
  ultimately show ?case by simp
qed

lemma renderBlock_mono [partial_function_mono]:
  assumes "\<And>s. mono_option (\<lambda>f. R f s)"
  shows "mono_option (\<lambda>f. renderBlock (R f) b options)"
proof (cases b)
  case (Blockquote ls)
  have "mono_option (\<lambda>f. Option.bind (R f (Some (join [CHR 0x0A] ls)))
          (\<lambda>inner. Some (''<blockquote>'' @ inner @ ''</blockquote>'')))"
    by (intro bind_mono assms option.const_mono)
  moreover have "(\<lambda>f. renderBlock (R f) b options) =
      (\<lambda>f. Option.bind (R f (Some (join [CHR 0x0A] ls)))
          (\<lambda>inner. Some (''<blockquote>'' @ inner @ ''</blockquote>'')))"
    by (auto simp: fun_eq_iff renderBlock_def Blockquote split: option.splits)
  ultimately show ?thesis by simp
qed (simp_all add: renderBlock_def option.const_mono)

partial_function (option) fallbackMdToHtml :: "string option \<Rightarrow> opts \<Rightarrow> string option" where
  "fallbackMdToHtml md options =
     (case segLoop (splitLines md) 0 [] of
        None \<Rightarrow> None
      | Some blocks \<Rightarrow>
          Option.bind (mapOpt (\<lambda>b. renderBlock (\<lambda>s. fallbackMdToHtml s options) b options) blocks)
            (\<lambda>htmls. Some (join [CHR 0x0A] htmls)))"

section \<open>The public entry point\<close>

text \<open>
  renderWithMarkdownIt returns \<^verbatim>\<open>null\<close> when no markdown-it factory is on the page.  The
  factory and everything the function does with it (lines 113 to 188) depend on the
  external library; \<open>engine\<close> stands for them when the factory is there.
\<close>

definition renderWithMarkdownIt ::
  "(string option \<Rightarrow> opts \<Rightarrow> string) option \<Rightarrow> string option \<Rightarrow> opts \<Rightarrow> string option" where
  "renderWithMarkdownIt engine md options =
     (case engine of None \<Rightarrow> None | Some render \<Rightarrow> Some (render md options))"

definition mdToHtml ::
  "(string option \<Rightarrow> opts \<Rightarrow> string) option \<Rightarrow> string option \<Rightarrow> opts \<Rightarrow> string option" where
  "mdToHtml engine md options =
     (case renderWithMarkdownIt engine md options of
        Some html \<Rightarrow> Some html
      | None \<Rightarrow> fallbackMdToHtml md options)"




section \<open>The second renderer file\<close>

text \<open>
  The repository holds a second, shorter renderer (src/unnamed/part_000) that defines
  \<^verbatim>\<open>window.mdToHtml\<close> on its own.  Its escapeHtml makes the same five replacements as
  the one above.  Its mdToHtml is a chain of substitutions on the escaped source; the
  function below follows it stage by stage, for a source that is a string.
\<close>






















section \<open>The order of the block recognisers, as the specification words it\<close>

text \<open>
  The specification lists nine recognisers and says that the first that matches wins.
  Each branch of the main loop is named here as a recogniser: the block it pushes and the
  new cursor, or \<open>None\<close> when the branch is not taken.  \<open>candidates\<close> lists them in the
  specification's order and \<open>firstSome\<close> picks the first that matches.
\<close>

type_synonym recogniser = "string list \<Rightarrow> nat \<Rightarrow> (block \<times> nat) option"

definition fencedAt :: recogniser where
  "fencedAt lines i =
     (case parseFence (lines ! i) of
        None \<Rightarrow> None
      | Some fence \<Rightarrow>
          (case fenceLoop (marker fence) (drop (i + 1) lines) (i + 1) [] of
             (buf, j) \<Rightarrow> Some (Code (lang fence) (join [CHR 0x0A] buf),
                               if j < length lines then j + 1 else j)))"

definition setextAt :: recogniser where
  "setextAt lines i =
     (case parseSetextHeading lines i of
        None \<Rightarrow> None
      | Some (level, txt, n) \<Rightarrow> Some (Heading level txt, n))"

definition atxAt :: recogniser where
  "atxAt lines i =
     (case parseAtxHeading (lines ! i) of
        None \<Rightarrow> None
      | Some (level, txt) \<Rightarrow> Some (Heading level txt, i + 1))"

definition breakAt :: recogniser where
  "breakAt lines i = (if isThematicBreak (lines ! i) then Some (Hr, i + 1) else None)"

definition paragraphAt :: recogniser where
  "paragraphAt lines i = Some (parseParagraph lines i)"

definition candidates :: "string list \<Rightarrow> nat \<Rightarrow> (block \<times> nat) option list" where
  "candidates lines i =
     [fencedAt lines i, parseIndentedCode lines i, setextAt lines i, atxAt lines i,
      breakAt lines i, parseBlockquote lines i, parseTable lines i, parseList lines i,
      paragraphAt lines i]"

fun firstSome :: "'a option list \<Rightarrow> 'a option" where
  "firstSome [] = None"
| "firstSome (None # rs) = firstSome rs"
| "firstSome (Some x # rs) = Some x"

section \<open>Auxiliary notions for the statements\<close>

text \<open>What escapeHtml writes for one character.\<close>

definition escapeCh :: "char \<Rightarrow> string" where
  "escapeCh x =
     (if x = CHR ''&'' then ''&amp;''
      else if x = CHR ''<'' then ''&lt;''
      else if x = CHR ''>'' then ''&gt;''
      else if x = CHR 0x22 then ''&quot;''
      else if x = CHR 0x27 then ''&#39;''
      else [x])"


text \<open>The stages of renderInline that follow the inline code stage.\<close>

definition laterStages :: "opts \<Rightarrow> string \<Rightarrow> string" where
  "laterStages options s =
     stageItalic (stageBold (stageStrike (stageBareUrls options (stageAutolinks options
       (stageLinks options (stageImages options s))))))"

text \<open>
  A sufficient condition, read off the pattern, for every match of it to begin at an
  input that holds a character satisfying \<open>T\<close>.
\<close>

fun must :: "(char \<Rightarrow> bool) \<Rightarrow> re \<Rightarrow> bool" where
  "must T (Cls P) = (\<forall>x. P x \<longrightarrow> T x)"
| "must T Eps = False"
| "must T (Seq a b) = (must T a \<or> must T b)"
| "must T (Alt a b) = (must T a \<and> must T b)"
| "must T (Rep m mx g a) = (0 < m \<and> mx \<noteq> Some 0 \<and> must T a)"
| "must T (Grp n a) = must T a"
| "must T Bol = False"
| "must T Eol = False"
| "must T (Ahead a) = False"
| "must T (NotAhead a) = False"

abbreviation BT :: char where
  "BT \<equiv> CHR 0x60"

text \<open>
  The match that \<open>ms\<close> lists first, which is the one the program sees.
\<close>

definition firstMatch :: "re \<Rightarrow> mstate \<Rightarrow> mstate option" where
  "firstMatch e st = (case ms e st of [] \<Rightarrow> None | m # _ \<Rightarrow> Some m)"

text \<open>A matcher state moved \<open>d\<close> places to the right.\<close>

definition shift :: "nat \<Rightarrow> mstate \<Rightarrow> mstate" where
  "shift d = (\<lambda>(p, r, c). (p + d, r, c))"






section \<open>Evaluation\<close>

text \<open>
  The two partial functions are run on concrete inputs by their defining equations.
\<close>

declare segLoop.simps [code]

declare fallbackMdToHtml.simps [code]

section \<open>Facts about the matcher\<close>

lemma ms_Cls_iff:
  "(p', r', c') \<in> set (ms (Cls P) (p, r, c)) \<longleftrightarrow> (\<exists>x. r = x # r' \<and> P x \<and> p' = Suc p \<and> c' = c)"
  by (cases r) auto

lemma ms_star_Cls_unfold:
  "ms (Rep 0 None g (Cls P)) (p, r, c) =
     (case r of [] \<Rightarrow> [(p, r, c)]
      | x # xs \<Rightarrow> if P x then (if g then ms (Rep 0 None g (Cls P)) (Suc p, xs, c) @ [(p, r, c)]
                                 else (p, r, c) # ms (Rep 0 None g (Cls P)) (Suc p, xs, c))
                 else [(p, r, c)])"
  by (subst ms.simps) (auto split: list.splits)

lemma ms_star_Cls_list:
  "ms (Rep 0 None True (Cls P)) (p, r, c) =
     map (\<lambda>k. (p + k, drop k r, c)) (rev [0..<Suc (length (takeWhile P r))])"
proof (induction r arbitrary: p)
  case Nil
  show ?case by (subst ms_star_Cls_unfold) simp
next
  case (Cons x xs)
  show ?case
  proof (cases "P x")
    case False
    then show ?thesis by (subst ms_star_Cls_unfold) simp
  next
    case True
    have "map (\<lambda>k. (p + k, drop k (x # xs), c)) (rev [0..<Suc (Suc (length (takeWhile P xs)))])
        = map (\<lambda>k. (Suc p + k, drop k xs, c)) (rev [0..<Suc (length (takeWhile P xs))]) @ [(p, x # xs, c)]"
      unfolding upt_conv_Cons[of 0 "Suc (Suc _)", OF zero_less_Suc] map_Suc_upt[symmetric]
      by (simp add: rev_map comp_def)
    with True Cons[of "Suc p"] show ?thesis by (subst ms_star_Cls_unfold) simp
  qed
qed

lemma ms_star_Cls_set:
  "set (ms (Rep 0 None True (Cls P)) (p, r, c)) = {(p + k, drop k r, c) | k. k \<le> length (takeWhile P r)}"
proof -
  have "set (rev [0..<Suc (length (takeWhile P r))]) = {k. k \<le> length (takeWhile P r)}"
    by (auto simp del: upt_Suc)
  then show ?thesis
    unfolding ms_star_Cls_list set_map by (auto simp del: upt_Suc)
qed

lemma ms_plus_Cls:
  "ms (Rep (Suc 0) None g (Cls P)) (p, r, c) =
     (case r of [] \<Rightarrow> [] | x # xs \<Rightarrow> if P x then ms (Rep 0 None g (Cls P)) (Suc p, xs, c) else [])"
  by (subst ms.simps) (auto split: list.splits)

lemma ms_lit:
  "ms (lit w) (p, r, c) =
     (if take (length w) r = w \<and> length w \<le> length r then [(p + length w, drop (length w) r, c)] else [])"
proof (induction w arbitrary: p r)
  case Nil
  show ?case by (simp add: lit_def)
next
  case (Cons a w)
  show ?case
  proof (cases w)
    case Nil
    then show ?thesis by (cases r) (auto simp: lit_def chr_def)
  next
    case (Cons b bs)
    have "lit (a # w) = Seq (chr a) (lit w)"
      by (simp add: lit_def Cons)
    then show ?thesis using Cons.IH
      by (cases r) (auto simp: chr_def)
  qed
qed

lemma search_Bol: "0 < p \<Longrightarrow> search (Seq Bol e) p s = None"
  by (induction s arbitrary: p) auto

lemma rtest_Bol: "rtest (Seq Bol e) s \<longleftrightarrow> ms e (0, s, \<lambda>n. None) \<noteq> []"
  by (cases s) (auto simp: rtest_def search_Bol split: list.splits)

lemma rmatch_Bol:
  "rmatch (Seq Bol e) s = (case ms e (0, s, \<lambda>n. None) of [] \<Rightarrow> None | (p', r', c') # _ \<Rightarrow> Some c')"
  by (cases s) (auto simp: rmatch_def search_Bol split: list.splits)

lemma takeWhile_all: "length (takeWhile P r) = length r \<longleftrightarrow> (\<forall>x\<in>set r. P x)"
  by (metis takeWhile_eq_take take_all order_refl takeWhile_eq_all_conv)

lemma star_Eol:
  "ms (Seq (Rep 0 None True (Cls P)) Eol) (p, r, c) \<noteq> [] \<longleftrightarrow> (\<forall>x\<in>set r. P x)"
proof -
  have "ms (Seq (Rep 0 None True (Cls P)) Eol) (p, r, c) \<noteq> [] \<longleftrightarrow>
        (\<exists>st\<in>set (ms (Rep 0 None True (Cls P)) (p, r, c)). ms Eol st \<noteq> [])"
    by auto
  also have "\<dots> \<longleftrightarrow> (\<exists>k\<le>length (takeWhile P r). drop k r = [])"
    unfolding ms_star_Cls_set by auto
  also have "\<dots> \<longleftrightarrow> length (takeWhile P r) = length r"
    using length_takeWhile_le[of P r] by auto
  finally show ?thesis by (simp add: takeWhile_all)
qed

lemma ms_Seq_ne: "ms (Seq a b) st \<noteq> [] \<longleftrightarrow> (\<exists>mid\<in>set (ms a st). ms b mid \<noteq> [])"
  by auto

lemma star_then:
  "ms (Seq (Rep 0 None True (Cls P)) e) (p, r, c) \<noteq> [] \<longleftrightarrow>
     (\<exists>k\<le>length (takeWhile P r). ms e (p + k, drop k r, c) \<noteq> [])"
  unfolding ms_Seq_ne ms_star_Cls_set by auto

lemma lit_then:
  "ms (Seq (lit w) e) (p, r, c) \<noteq> [] \<longleftrightarrow>
     (take (length w) r = w \<and> length w \<le> length r \<and> ms e (p + length w, drop (length w) r, c) \<noteq> [])"
  unfolding ms_Seq_ne ms_lit by auto

lemma take_takeWhile_all: "k \<le> length (takeWhile P l) \<Longrightarrow> \<forall>x\<in>set (take k l). P x"
proof -
  assume k: "k \<le> length (takeWhile P l)"
  have "take k (takeWhile P l) = take k (take (length (takeWhile P l)) l)"
    by (simp add: takeWhile_eq_take[symmetric])
  also have "\<dots> = take k l"
    using k by (simp add: min_absorb1)
  finally have "take k l = take k (takeWhile P l)" by simp
  then show ?thesis
    by (metis in_set_takeD set_takeWhileD)
qed

lemma fenceEnd_iff:
  "rtest (re_fenceEnd mk) l \<longleftrightarrow>
     (\<exists>a b. l = a @ mk @ b \<and> (\<forall>x\<in>set a. isWs x) \<and> (\<forall>x\<in>set b. isWs x))"
proof -
  have e: "re_fenceEnd mk = Seq Bol (Seq (Rep 0 None True (Cls isWs)) (Seq (lit mk) (Seq (Rep 0 None True (Cls isWs)) Eol)))"
    by (simp add: re_fenceEnd_def star_def ws_def)
  have 1: "rtest (re_fenceEnd mk) l \<longleftrightarrow>
      (\<exists>k\<le>length (takeWhile isWs l). take (length mk) (drop k l) = mk \<and> length mk \<le> length (drop k l) \<and>
          (\<forall>x\<in>set (drop (length mk) (drop k l)). isWs x))"
    unfolding e rtest_Bol
    by (subst star_then, simp only: lit_then, simp only: star_Eol)
  show ?thesis
  proof
    assume "rtest (re_fenceEnd mk) l"
    then obtain k where k: "k \<le> length (takeWhile isWs l)" "take (length mk) (drop k l) = mk"
      "length mk \<le> length (drop k l)" "\<forall>x\<in>set (drop (length mk) (drop k l)). isWs x"
      unfolding 1 by blast
    have "l = take k l @ mk @ drop (length mk) (drop k l)"
      by (metis append_take_drop_id k(2))
    moreover have "\<forall>x\<in>set (take k l). isWs x"
      using k(1) by (rule take_takeWhile_all)
    ultimately show "\<exists>a b. l = a @ mk @ b \<and> (\<forall>x\<in>set a. isWs x) \<and> (\<forall>x\<in>set b. isWs x)"
      using k(4) by blast
  next
    assume "\<exists>a b. l = a @ mk @ b \<and> (\<forall>x\<in>set a. isWs x) \<and> (\<forall>x\<in>set b. isWs x)"
    then obtain a b where ab: "l = a @ mk @ b" "\<forall>x\<in>set a. isWs x" "\<forall>x\<in>set b. isWs x"
      by blast
    have "length a \<le> length (takeWhile isWs l)"
      using ab(1,2) by (simp add: takeWhile_append2)
    then show "rtest (re_fenceEnd mk) l"
      unfolding 1 using ab by (intro exI[of _ "length a"]) simp
  qed
qed

lemma in_Seq:
  "st' \<in> set (ms (Seq a b) st) \<longleftrightarrow>
     (\<exists>p1 r1 c1. (p1, r1, c1) \<in> set (ms a st) \<and> st' \<in> set (ms b (p1, r1, c1)))"
  by auto

lemma in_Alt: "st' \<in> set (ms (Alt a b) st) \<longleftrightarrow> st' \<in> set (ms a st) \<or> st' \<in> set (ms b st)"
  by simp

lemma in_Grp:
  "(p', r', c') \<in> set (ms (Grp n a) (p, r, c)) \<longleftrightarrow>
     (\<exists>c1. (p', r', c1) \<in> set (ms a (p, r, c)) \<and> c' = c1(n \<mapsto> take (p' - p) r))"
  by (force simp: image_iff)

lemma in_Eol: "(p', r', c') \<in> set (ms Eol (p, r, c)) \<longleftrightarrow> r = [] \<and> p' = p \<and> r' = [] \<and> c' = c"
  by auto

lemma in_star_Cls:
  "(p', r', c') \<in> set (ms (Rep 0 None True (Cls P)) (p, r, c)) \<longleftrightarrow>
     (\<exists>a. r = a @ r' \<and> (\<forall>x\<in>set a. P x) \<and> p' = p + length a \<and> c' = c)"
proof
  assume "(p', r', c') \<in> set (ms (Rep 0 None True (Cls P)) (p, r, c))"
  then obtain k where k: "k \<le> length (takeWhile P r)" "p' = p + k" "r' = drop k r" "c' = c"
    unfolding ms_star_Cls_set by blast
  have "r = take k r @ r'" by (simp add: k)
  moreover have "\<forall>x\<in>set (take k r). P x" using k(1) by (rule take_takeWhile_all)
  moreover have "length (take k r) = k" using k(1) length_takeWhile_le[of P r] by simp
  ultimately show "\<exists>a. r = a @ r' \<and> (\<forall>x\<in>set a. P x) \<and> p' = p + length a \<and> c' = c"
    using k by metis
next
  assume "\<exists>a. r = a @ r' \<and> (\<forall>x\<in>set a. P x) \<and> p' = p + length a \<and> c' = c"
  then obtain a where a: "r = a @ r'" "\<forall>x\<in>set a. P x" "p' = p + length a" "c' = c" by blast
  have "length a \<le> length (takeWhile P r)" using a(1,2) by (simp add: takeWhile_append2)
  moreover have "drop (length a) r = r'" using a(1) by simp
  ultimately show "(p', r', c') \<in> set (ms (Rep 0 None True (Cls P)) (p, r, c))"
    unfolding ms_star_Cls_set using a by blast
qed

lemma in_plus_Cls:
  "(p', r', c') \<in> set (ms (Rep (Suc 0) None True (Cls P)) (p, r, c)) \<longleftrightarrow>
     (\<exists>a. a \<noteq> [] \<and> r = a @ r' \<and> (\<forall>x\<in>set a. P x) \<and> p' = p + length a \<and> c' = c)"
proof (cases r)
  case Nil
  then show ?thesis by (simp add: ms_plus_Cls)
next
  case (Cons x xs)
  show ?thesis
  proof (cases "P x")
    case False
    then show ?thesis using Cons by (auto simp: ms_plus_Cls Cons_eq_append_conv)
  next
    case True
    have "(\<exists>a. xs = a @ r' \<and> (\<forall>x\<in>set a. P x) \<and> p' = Suc p + length a \<and> c' = c) \<longleftrightarrow>
          (\<exists>a. a \<noteq> [] \<and> x # xs = a @ r' \<and> (\<forall>x\<in>set a. P x) \<and> p' = p + length a \<and> c' = c)"
    proof
      assume "\<exists>a. xs = a @ r' \<and> (\<forall>x\<in>set a. P x) \<and> p' = Suc p + length a \<and> c' = c"
      then obtain a where "xs = a @ r'" "\<forall>x\<in>set a. P x" "p' = Suc p + length a" "c' = c" by blast
      then show "\<exists>a. a \<noteq> [] \<and> x # xs = a @ r' \<and> (\<forall>x\<in>set a. P x) \<and> p' = p + length a \<and> c' = c"
        using True by (intro exI[of _ "x # a"]) simp
    next
      assume "\<exists>a. a \<noteq> [] \<and> x # xs = a @ r' \<and> (\<forall>x\<in>set a. P x) \<and> p' = p + length a \<and> c' = c"
      then obtain a where a: "a \<noteq> []" "x # xs = a @ r'" "\<forall>x\<in>set a. P x" "p' = p + length a" "c' = c" by blast
      then obtain b where "a = x # b" by (cases a) auto
      then show "\<exists>a. xs = a @ r' \<and> (\<forall>x\<in>set a. P x) \<and> p' = Suc p + length a \<and> c' = c"
        using a by (intro exI[of _ b]) simp
    qed
    then show ?thesis using True Cons by (simp add: ms_plus_Cls in_star_Cls)
  qed
qed

lemma in_lit:
  "(p', r', c') \<in> set (ms (lit w) (p, r, c)) \<longleftrightarrow> r = w @ r' \<and> p' = p + length w \<and> c' = c"
  unfolding ms_lit by (auto simp: append_eq_conv_conj) (metis append_take_drop_id)

lemma ms_Rep0_Some0: "ms (Rep 0 (Some 0) g a) st = [st]"
  by (cases st) (simp add: ms.simps(11))

lemma ms_opt:
  "ms (Rep 0 (Some (Suc 0)) True a) (p, r, c) =
     filter (\<lambda>(p', r', c'). length r' < length r) (ms a (p, r, clear (groups a) c)) @ [(p, r, c)]"
proof -
  have "concat (map (\<lambda>(p', r', c'). if length r' < length r then [(p', r', c')] else []) xs)
      = filter (\<lambda>(p', r', c'). length r' < length r) xs" for xs :: "mstate list"
    by (induction xs) auto
  then show ?thesis
    by (subst ms.simps(11)) (simp add: ms_Rep0_Some0 cong: if_cong)
qed

lemma in_opt:
  "(p', r', c') \<in> set (ms (Rep 0 (Some (Suc 0)) True a) (p, r, c)) \<longleftrightarrow>
     (p', r', c') = (p, r, c) \<or>
     ((p', r', c') \<in> set (ms a (p, r, clear (groups a) c)) \<and> length r' < length r)"
  unfolding ms_opt by auto

lemma re_fenceLine_unfold:
  "re_fenceLine = Seq (Grp 1 (Rep 0 None True (Cls isWs)))
   (Seq (Grp 2 (Alt (lit ''```'') (lit ''~~~'')))
   (Seq (Rep 0 None True (Cls isWs))
   (Seq (Rep 0 (Some (Suc 0)) True (Grp 3 (Rep (Suc 0) None True (Cls isLangCh))))
   (Seq (Rep 0 None True (Cls isWs)) Eol))))"
  by (simp add: re_fenceLine_def star_def plus_def opt_def ws_def)

lemma in_Grp_star:
  "(p', r', c') \<in> set (ms (Grp n (Rep 0 None True (Cls P))) (p, r, c)) \<longleftrightarrow>
     (\<exists>a. r = a @ r' \<and> (\<forall>x\<in>set a. P x) \<and> p' = p + length a \<and> c' = c(n \<mapsto> a))"
  unfolding in_Grp in_star_Cls by auto

lemma in_Grp_plus:
  "(p', r', c') \<in> set (ms (Grp n (Rep (Suc 0) None True (Cls P))) (p, r, c)) \<longleftrightarrow>
     (\<exists>a. a \<noteq> [] \<and> r = a @ r' \<and> (\<forall>x\<in>set a. P x) \<and> p' = p + length a \<and> c' = c(n \<mapsto> a))"
  unfolding in_Grp in_plus_Cls by auto

lemma in_Grp_lit:
  "(p', r', c') \<in> set (ms (Grp n (lit w)) (p, r, c)) \<longleftrightarrow>
     r = w @ r' \<and> p' = p + length w \<and> c' = c(n \<mapsto> w)"
  unfolding in_Grp in_lit by auto

lemma fenceLine_sound:
  assumes "(p', r', m) \<in> set (ms re_fenceLine (0, l, \<lambda>n. None))"
  shows "\<exists>a w1 w2. l = a @ cap m 2 @ w1 @ cap m 3 @ w2 \<and> (cap m 2 = ''```'' \<or> cap m 2 = ''~~~'') \<and>
        (\<forall>x\<in>set a. isWs x) \<and> (\<forall>x\<in>set w1. isWs x) \<and> (\<forall>x\<in>set w2. isWs x) \<and>
        (\<forall>x\<in>set (cap m 3). isLangCh x) \<and> cap m 1 = a"
proof -
  from assms obtain p1 r1 c1 where
    s1: "(p1, r1, c1) \<in> set (ms (Grp 1 (Rep 0 None True (Cls isWs))) (0, l, \<lambda>n. None))" and
    t1: "(p', r', m) \<in> set (ms (Seq (Grp 2 (Alt (lit ''```'') (lit ''~~~'')))
       (Seq (Rep 0 None True (Cls isWs))
       (Seq (Rep 0 (Some (Suc 0)) True (Grp 3 (Rep (Suc 0) None True (Cls isLangCh))))
       (Seq (Rep 0 None True (Cls isWs)) Eol)))) (p1, r1, c1))"
    unfolding re_fenceLine_unfold by (subst (asm) in_Seq) blast
  from s1 obtain a where a: "l = a @ r1" "\<forall>x\<in>set a. isWs x" "c1 = (\<lambda>n. None)(1 \<mapsto> a)"
    unfolding in_Grp_star by blast
  from t1 obtain p2 r2 c2 where
    s2: "(p2, r2, c2) \<in> set (ms (Grp 2 (Alt (lit ''```'') (lit ''~~~''))) (p1, r1, c1))" and
    t2: "(p', r', m) \<in> set (ms (Seq (Rep 0 None True (Cls isWs))
       (Seq (Rep 0 (Some (Suc 0)) True (Grp 3 (Rep (Suc 0) None True (Cls isLangCh))))
       (Seq (Rep 0 None True (Cls isWs)) Eol))) (p2, r2, c2))"
    by (subst (asm) in_Seq) blast
  from s2 obtain mk where mk: "r1 = mk @ r2" "mk = ''```'' \<or> mk = ''~~~''" "c2 = c1(2 \<mapsto> mk)"
    unfolding in_Grp in_Alt in_lit by auto
  from t2 obtain p3 r3 c3 where
    s3: "(p3, r3, c3) \<in> set (ms (Rep 0 None True (Cls isWs)) (p2, r2, c2))" and
    t3: "(p', r', m) \<in> set (ms (Seq (Rep 0 (Some (Suc 0)) True (Grp 3 (Rep (Suc 0) None True (Cls isLangCh))))
       (Seq (Rep 0 None True (Cls isWs)) Eol)) (p3, r3, c3))"
    by (subst (asm) in_Seq) blast
  from s3 obtain w1 where w1: "r2 = w1 @ r3" "\<forall>x\<in>set w1. isWs x" "c3 = c2"
    unfolding in_star_Cls by blast
  from t3 obtain p4 r4 c4 where
    s4: "(p4, r4, c4) \<in> set (ms (Rep 0 (Some (Suc 0)) True (Grp 3 (Rep (Suc 0) None True (Cls isLangCh)))) (p3, r3, c3))" and
    t4: "(p', r', m) \<in> set (ms (Seq (Rep 0 None True (Cls isWs)) Eol) (p4, r4, c4))"
    by (subst (asm) in_Seq) blast
  from s4 obtain lg where lg: "r3 = lg @ r4" "\<forall>x\<in>set lg. isLangCh x" "cap c4 3 = lg" "c4 1 = c3 1" "c4 2 = c3 2"
    unfolding in_opt in_Grp_plus using w1(3) mk(3) a(3) by (auto simp: cap_def)
  from t4 obtain p5 r5 c5 where
    s5: "(p5, r5, c5) \<in> set (ms (Rep 0 None True (Cls isWs)) (p4, r4, c4))" and
    t5: "(p', r', m) \<in> set (ms Eol (p5, r5, c5))"
    by (subst (asm) in_Seq) blast
  from s5 t5 have w2: "\<forall>x\<in>set r4. isWs x" "m = c4"
    unfolding in_star_Cls in_Eol by auto
  have "l = a @ mk @ w1 @ lg @ r4"
    using a mk w1 lg by simp
  moreover have "cap m 2 = mk" "cap m 1 = a" "cap m 3 = lg"
    using w2 lg w1 mk a by (simp_all add: cap_def)
  ultimately show ?thesis
    using a mk w1 lg w2 by blast
qed

lemma fenceLine_complete:
  assumes "l = a @ mk @ w1 @ lg @ w2" "mk = ''```'' \<or> mk = ''~~~''"
    "\<forall>x\<in>set a. isWs x" "\<forall>x\<in>set w1. isWs x" "\<forall>x\<in>set w2. isWs x" "\<forall>x\<in>set lg. isLangCh x"
  shows "ms re_fenceLine (0, l, \<lambda>n. None) \<noteq> []"
proof -
  let ?c1 = "(\<lambda>n. None)(1 \<mapsto> a)"
  let ?c2 = "?c1(2 \<mapsto> mk)"
  let ?c4 = "if lg = [] then ?c2 else (clear [3] ?c2)(3 \<mapsto> lg)"
  have s1: "(length a, mk @ w1 @ lg @ w2, ?c1) \<in> set (ms (Grp 1 (Rep 0 None True (Cls isWs))) (0, l, \<lambda>n. None))"
    unfolding in_Grp_star using assms by auto
  have s2: "(length a + length mk, w1 @ lg @ w2, ?c2) \<in> set (ms (Grp 2 (Alt (lit ''```'') (lit ''~~~'')))
       (length a, mk @ w1 @ lg @ w2, ?c1))"
    unfolding in_Grp in_Alt in_lit using assms(2) by auto
  have s3: "(length a + length mk + length w1, lg @ w2, ?c2) \<in> set (ms (Rep 0 None True (Cls isWs))
       (length a + length mk, w1 @ lg @ w2, ?c2))"
    unfolding in_star_Cls using assms by auto
  have s4: "(length a + length mk + length w1 + length lg, w2, ?c4) \<in>
      set (ms (Rep 0 (Some (Suc 0)) True (Grp 3 (Rep (Suc 0) None True (Cls isLangCh))))
       (length a + length mk + length w1, lg @ w2, ?c2))"
    unfolding in_opt in_Grp_plus using assms by (cases "lg = []") auto
  have s5: "(length a + length mk + length w1 + length lg + length w2, [], ?c4) \<in>
      set (ms (Rep 0 None True (Cls isWs)) (length a + length mk + length w1 + length lg, w2, ?c4))"
    unfolding in_star_Cls using assms by auto
  have s6: "(length a + length mk + length w1 + length lg + length w2, [], ?c4) \<in>
      set (ms Eol (length a + length mk + length w1 + length lg + length w2, [], ?c4))"
    unfolding in_Eol by simp
  have "(length a + length mk + length w1 + length lg + length w2, [], ?c4) \<in> set (ms re_fenceLine (0, l, \<lambda>n. None))"
    unfolding re_fenceLine_unfold
    apply (subst in_Seq, intro exI conjI, rule s1)
    apply (subst in_Seq, intro exI conjI, rule s2)
    apply (subst in_Seq, intro exI conjI, rule s3)
    apply (subst in_Seq, intro exI conjI, rule s4)
    apply (subst in_Seq, intro exI conjI, rule s5)
    apply (rule s6)
    done
  then show ?thesis by auto
qed

lemma rg_skip: "k \<le> length xs \<Longrightarrow> rg e f k p xs = rg e f 0 (p + k) (drop k xs)"
  by (induction k arbitrary: p xs) (auto simp: Suc_le_length_iff)

lemma ms_suffix:
  "(p', r', c') \<in> set (ms e (p, r, c)) \<Longrightarrow> \<exists>a. r = a @ r'"
proof (induction e "(p, r, c)" arbitrary: p r c p' r' c' rule: ms.induct)
  case (1 P p r c)
  then show ?case by (cases r) (auto split: if_splits)
next
  case (2 p r c)
  then show ?case by simp
next
  case (3 a b p r c)
  from 3(3) obtain p1 r1 c1 where m: "(p1, r1, c1) \<in> set (ms a (p, r, c))" "(p', r', c') \<in> set (ms b (p1, r1, c1))"
    by (subst (asm) in_Seq) blast
  from 3(1)[OF m(1)] obtain x where "r = x @ r1" by blast
  moreover from 3(2)[OF m(1) m(2)] obtain y where "r1 = y @ r'" by blast
  ultimately show ?case by simp
next
  case (4 a b p r c)
  then show ?case by auto
next
  case (5 n a p r c)
  then show ?case by auto
next
  case (6 p r c)
  then show ?case by (auto split: if_splits)
next
  case (7 p r c)
  then show ?case by (auto split: if_splits)
next
  case (8 a p r c)
  then show ?case by (auto split: list.splits)
next
  case (9 a p r c)
  then show ?case by (auto split: if_splits)
next
  case (10 m mx g a p r c)
  show ?case
  proof (cases "mx = Some 0")
    case True
    with 10(3) show ?thesis by (subst (asm) ms.simps(10)) simp
  next
    case False
    have "(p', r', c') \<in> set (concat (map (ms (Rep m (decr mx) g a)) (ms a (p, r, clear (groups a) c))))"
      using 10(3) False by (subst (asm) ms.simps(10)) simp
    then obtain p1 r1 c1 where m: "(p1, r1, c1) \<in> set (ms a (p, r, clear (groups a) c))"
        "(p', r', c') \<in> set (ms (Rep m (decr mx) g a) (p1, r1, c1))"
      by auto
    from 10(1)[OF False m(1)] obtain x where "r = x @ r1" by blast
    moreover from 10(2)[OF False m(1) m(2)] obtain y where "r1 = y @ r'" by blast
    ultimately show ?thesis by simp
  qed
next
  case (11 mx g a p r c)
  show ?case
  proof (cases "mx = Some 0")
    case True
    with 11(3) show ?thesis by (subst (asm) ms.simps(11)) simp
  next
    case False
    have "(p', r', c') \<in> set (let more = concat (map (\<lambda>(p', r', c').
                   if length r' < length r then ms (Rep 0 (decr mx) g a) (p', r', c') else [])
                 (ms a (p, r, clear (groups a) c)))
           in if g then more @ [(p, r, c)] else (p, r, c) # more)"
      using 11(3) False by (subst (asm) ms.simps(11)) simp
    then have "(p', r', c') = (p, r, c) \<or>
        (\<exists>p1 r1 c1. (p1, r1, c1) \<in> set (ms a (p, r, clear (groups a) c)) \<and> length r1 < length r \<and>
           (p', r', c') \<in> set (ms (Rep 0 (decr mx) g a) (p1, r1, c1)))"
      by (cases g) (auto simp: Let_def split: if_splits)
    then show ?thesis
    proof
      assume "(p', r', c') = (p, r, c)"
      then show ?thesis by simp
    next
      assume "\<exists>p1 r1 c1. (p1, r1, c1) \<in> set (ms a (p, r, clear (groups a) c)) \<and> length r1 < length r \<and>
           (p', r', c') \<in> set (ms (Rep 0 (decr mx) g a) (p1, r1, c1))"
      then obtain p1 r1 c1 where m: "(p1, r1, c1) \<in> set (ms a (p, r, clear (groups a) c))"
          "length r1 < length r" "(p', r', c') \<in> set (ms (Rep 0 (decr mx) g a) (p1, r1, c1))"
        by blast
      from 11(1)[OF False m(1)] obtain x where "r = x @ r1" by blast
      moreover from 11(2)[OF False m(1) refl refl m(2) m(3)] obtain y where "r1 = y @ r'" by blast
      ultimately show ?thesis by simp
    qed
  qed
qed

lemma must_sound:
  "must T e \<Longrightarrow> ms e (p, r, c) \<noteq> [] \<Longrightarrow> \<exists>x\<in>set r. T x"
proof (induction e arbitrary: p r c)
  case (Cls P)
  then show ?case by (cases r) (auto split: if_splits)
next
  case (Seq a b)
  from Seq.prems(2) obtain p1 r1 c1 where m: "(p1, r1, c1) \<in> set (ms a (p, r, c))" "ms b (p1, r1, c1) \<noteq> []"
    by auto
  show ?case
  proof (cases "must T a")
    case True
    from m(1) have "ms a (p, r, c) \<noteq> []" by auto
    from Seq.IH(1)[OF True this] show ?thesis .
  next
    case False
    with Seq.prems(1) have "must T b" by simp
    from Seq.IH(2)[OF this m(2)] obtain x where x: "x \<in> set r1" "T x" by blast
    from ms_suffix[OF m(1)] obtain y where "r = y @ r1" by blast
    with x show ?thesis by auto
  qed
next
  case (Alt a b)
  then show ?case by (cases "ms a (p, r, c) = []") auto
next
  case (Rep m mx g a)
  then obtain k where k: "m = Suc k" "mx \<noteq> Some 0" "must T a" by (cases m) auto
  have "ms a (p, r, clear (groups a) c) \<noteq> []"
    using Rep.prems(2) unfolding k(1) by (subst (asm) ms.simps(10)) (auto simp: k(2))
  from Rep.IH[OF k(3) this] show ?case .
next
  case (Grp n a)
  then show ?case by auto
qed simp_all

lemma rg_no_match:
  assumes "must T e" "\<forall>x\<in>set s. \<not> T x"
  shows "rg e f 0 p s = s"
  using assms(2)
proof (induction s arbitrary: p)
  case Nil
  have "ms e (p, [], \<lambda>n. None) = []"
    using must_sound[OF assms(1), of p "[]"] by auto
  then show ?case by simp
next
  case (Cons x xs)
  have "ms e (p, x # xs, \<lambda>n. None) = []"
    using must_sound[OF assms(1), of p "x # xs"] Cons.prems by blast
  then show ?case using Cons by simp
qed

lemma replaceAll_no_match: "must T e \<Longrightarrow> \<forall>x\<in>set s. \<not> T x \<Longrightarrow> replaceAll e f s = s"
  by (simp add: replaceAll_def rg_no_match)

lemma ms_index:
  "(p', r', c') \<in> set (ms e (p, r, c)) \<Longrightarrow> p \<le> p'"
proof (induction e "(p, r, c)" arbitrary: p r c p' r' c' rule: ms.induct)
  case (1 P p r c)
  then show ?case by (cases r) (auto split: if_splits)
next
  case (2 p r c)
  then show ?case by simp
next
  case (3 a b p r c)
  from 3(3) obtain p1 r1 c1 where m: "(p1, r1, c1) \<in> set (ms a (p, r, c))" "(p', r', c') \<in> set (ms b (p1, r1, c1))"
    by (subst (asm) in_Seq) blast
  from 3(1)[OF m(1)] 3(2)[OF m(1) m(2)] show ?case by simp
next
  case (4 a b p r c)
  then show ?case by auto
next
  case (5 n a p r c)
  then show ?case by auto
next
  case (6 p r c)
  then show ?case by (auto split: if_splits)
next
  case (7 p r c)
  then show ?case by (auto split: if_splits)
next
  case (8 a p r c)
  then show ?case by (auto split: list.splits)
next
  case (9 a p r c)
  then show ?case by (auto split: if_splits)
next
  case (10 m mx g a p r c)
  show ?case
  proof (cases "mx = Some 0")
    case True
    with 10(3) show ?thesis by (subst (asm) ms.simps(10)) simp
  next
    case False
    have "(p', r', c') \<in> set (concat (map (ms (Rep m (decr mx) g a)) (ms a (p, r, clear (groups a) c))))"
      using 10(3) False by (subst (asm) ms.simps(10)) simp
    then obtain p1 r1 c1 where m: "(p1, r1, c1) \<in> set (ms a (p, r, clear (groups a) c))"
        "(p', r', c') \<in> set (ms (Rep m (decr mx) g a) (p1, r1, c1))"
      by auto
    from 10(1)[OF False m(1)] 10(2)[OF False m(1) m(2)] show ?thesis by simp
  qed
next
  case (11 mx g a p r c)
  show ?case
  proof (cases "mx = Some 0")
    case True
    with 11(3) show ?thesis by (subst (asm) ms.simps(11)) simp
  next
    case False
    have "(p', r', c') \<in> set (let more = concat (map (\<lambda>(p', r', c').
                   if length r' < length r then ms (Rep 0 (decr mx) g a) (p', r', c') else [])
                 (ms a (p, r, clear (groups a) c)))
           in if g then more @ [(p, r, c)] else (p, r, c) # more)"
      using 11(3) False by (subst (asm) ms.simps(11)) simp
    then have "(p', r', c') = (p, r, c) \<or>
        (\<exists>p1 r1 c1. (p1, r1, c1) \<in> set (ms a (p, r, clear (groups a) c)) \<and> length r1 < length r \<and>
           (p', r', c') \<in> set (ms (Rep 0 (decr mx) g a) (p1, r1, c1)))"
      by (cases g) (auto simp: Let_def split: if_splits)
    then show ?thesis
    proof
      assume "(p', r', c') = (p, r, c)"
      then show ?thesis by simp
    next
      assume "\<exists>p1 r1 c1. (p1, r1, c1) \<in> set (ms a (p, r, clear (groups a) c)) \<and> length r1 < length r \<and>
           (p', r', c') \<in> set (ms (Rep 0 (decr mx) g a) (p1, r1, c1))"
      then obtain p1 r1 c1 where m: "(p1, r1, c1) \<in> set (ms a (p, r, clear (groups a) c))"
          "length r1 < length r" "(p', r', c') \<in> set (ms (Rep 0 (decr mx) g a) (p1, r1, c1))"
        by blast
      from 11(1)[OF False m(1)] 11(2)[OF False m(1) refl refl m(2) m(3)] show ?thesis by simp
    qed
  qed
qed

lemma shift_simp [simp]: "shift d (p, r, c) = (p + d, r, c)"
  by (simp add: shift_def)

lemma concat_map_shift:
  assumes "\<And>x. x \<in> set xs \<Longrightarrow> f (shift d x) = map (shift d) (g x)"
  shows "concat (map f (map (shift d) xs)) = map (shift d) (concat (map g xs))"
  using assms by (induction xs) auto

lemma ms_shift:
  "0 < p \<Longrightarrow> ms e (p + d, r, c) = map (shift d) (ms e (p, r, c))"
proof (induction e "(p, r, c)" arbitrary: p r c rule: ms.induct)
  case (1 P p r c)
  then show ?case by (cases r) auto
next
  case (2 p r c)
  then show ?case by simp
next
  case (3 a b p r c)
  have "concat (map (ms b) (map (shift d) (ms a (p, r, c)))) = map (shift d) (concat (map (ms b) (ms a (p, r, c))))"
  proof (rule concat_map_shift)
    fix x assume x: "x \<in> set (ms a (p, r, c))"
    obtain p1 r1 c1 where x1: "x = (p1, r1, c1)" by (cases x)
    from ms_index[OF x[unfolded x1]] 3(3) have "0 < p1" by simp
    from 3(2)[OF x[unfolded x1] this] show "ms b (shift d x) = map (shift d) (ms b x)"
      by (simp add: x1)
  qed
  with 3(1)[OF 3(3)] show ?case by simp
next
  case (4 a b p r c)
  then show ?case by simp
next
  case (5 n a p r c)
  then show ?case by (auto simp: shift_def)
next
  case (6 p r c)
  then show ?case by simp
next
  case (7 p r c)
  then show ?case by simp
next
  case (8 a p r c)
  then show ?case by (auto split: list.splits simp: shift_def)
next
  case (9 a p r c)
  then show ?case by auto
next
  case (10 m mx g a p r c)
  show ?case
  proof (cases "mx = Some 0")
    case True
    then show ?thesis by (simp add: ms.simps(10))
  next
    case False
    have "concat (map (ms (Rep m (decr mx) g a)) (map (shift d) (ms a (p, r, clear (groups a) c))))
        = map (shift d) (concat (map (ms (Rep m (decr mx) g a)) (ms a (p, r, clear (groups a) c))))"
    proof (rule concat_map_shift)
      fix x assume x: "x \<in> set (ms a (p, r, clear (groups a) c))"
      obtain p1 r1 c1 where x1: "x = (p1, r1, c1)" by (cases x)
      from ms_index[OF x[unfolded x1]] 10(3) have "0 < p1" by simp
      from 10(2)[OF False x[unfolded x1] this]
      show "ms (Rep m (decr mx) g a) (shift d x) = map (shift d) (ms (Rep m (decr mx) g a) x)"
        by (simp add: x1)
    qed
    with 10(1)[OF False 10(3)] False show ?thesis
      by (simp add: ms.simps(10))
  qed
next
  case (11 mx g a p r c)
  show ?case
  proof (cases "mx = Some 0")
    case True
    then show ?thesis by (simp add: ms.simps(11))
  next
    case False
    let ?f = "\<lambda>(p', r', c'). if length r' < length r then ms (Rep 0 (decr mx) g a) (p', r', c') else []"
    have "concat (map ?f (map (shift d) (ms a (p, r, clear (groups a) c))))
        = map (shift d) (concat (map ?f (ms a (p, r, clear (groups a) c))))"
    proof (rule concat_map_shift)
      fix x assume x: "x \<in> set (ms a (p, r, clear (groups a) c))"
      obtain p1 r1 c1 where x1: "x = (p1, r1, c1)" by (cases x)
      from ms_index[OF x[unfolded x1]] 11(3) have p1: "0 < p1" by simp
      show "?f (shift d x) = map (shift d) (?f x)"
      proof (cases "length r1 < length r")
        case True
        from 11(2)[OF False x[unfolded x1] refl refl True p1] True show ?thesis
          by (simp add: x1)
      next
        case False
        then show ?thesis by (simp add: x1)
      qed
    qed
    with 11(1)[OF False 11(3)] False show ?thesis
      by (subst (1 2) ms.simps(11)) (simp add: Let_def)
  qed
qed


lemma fm_Seq:
  "firstMatch a st = Some m \<Longrightarrow> firstMatch b m = Some m' \<Longrightarrow> firstMatch (Seq a b) st = Some m'"
  by (auto simp: firstMatch_def split: list.splits)

lemma fm_Cls: "P x \<Longrightarrow> firstMatch (Cls P) (p, x # xs, c) = Some (Suc p, xs, c)"
  by (simp add: firstMatch_def)

lemma fm_Grp:
  "firstMatch a (p, r, c) = Some (p', r', c') \<Longrightarrow>
   firstMatch (Grp n a) (p, r, c) = Some (p', r', c'(n \<mapsto> take (p' - p) r))"
  by (auto simp: firstMatch_def split: list.splits)

lemma fm_star:
  "firstMatch (Rep 0 None True (Cls P)) (p, r, c) =
     Some (p + length (takeWhile P r), dropWhile P r, c)"
proof -
  have "rev [0..<Suc n] = n # rev [0..<n]" for n by simp
  then show ?thesis
    unfolding firstMatch_def ms_star_Cls_list
    by (simp add: dropWhile_eq_drop del: upt_Suc)
qed

lemma fm_plus:
  "P x \<Longrightarrow> firstMatch (Rep (Suc 0) None True (Cls P)) (p, x # xs, c) =
     Some (p + length (takeWhile P (x # xs)), dropWhile P (x # xs), c)"
  using fm_star[of P "Suc p" xs c] by (simp add: firstMatch_def ms_plus_Cls)


lemma fm_NotAhead: "ms a st = [] \<Longrightarrow> firstMatch (NotAhead a) st = Some st"
  by (simp add: firstMatch_def)

lemma rg_first_Some:
  assumes "firstMatch e (p, r, \<lambda>n. None) = Some (p + length m, r', c')" "r = m @ r'" "m \<noteq> []"
  shows "rg e f 0 p r = f m c' @ rg e f 0 (p + length m) r'"
proof -
  from assms(3) obtain y ys where m: "m = y # ys" by (cases m) auto
  have r: "r = y # ys @ r'" using assms(2) m by simp
  from assms(1) obtain rest where ms: "ms e (p, y # ys @ r', \<lambda>n. None) = (p + length m, r', c') # rest"
    by (auto simp: firstMatch_def r split: list.splits)
  have "rg e f (length ys) (Suc p) (ys @ r') = rg e f 0 (Suc p + length ys) (drop (length ys) (ys @ r'))"
    by (rule rg_skip) simp
  then show ?thesis
    unfolding r by (simp add: ms m)
qed

lemma rg_shift: "0 < p \<Longrightarrow> rg e f k (p + d) r = rg e f k p r"
proof (induction r arbitrary: p k)
  case Nil
  show ?case
  proof (cases k)
    case 0
    show ?thesis
      unfolding 0 using ms_shift[OF Nil, of e d "[]" "\<lambda>n. None"]
      by (cases "ms e (p, [], \<lambda>n. None)") (auto simp: shift_def)
  qed simp
next
  case (Cons x xs)
  have s: "rg e f j (Suc (p + d)) xs = rg e f j (Suc p) xs" for j
    using Cons.IH[of "Suc p" j] by simp
  show ?case
  proof (cases k)
    case 0
    show ?thesis
      unfolding 0 using ms_shift[OF Cons.prems, of e d "x # xs" "\<lambda>n. None"]
      by (cases "ms e (p, x # xs, \<lambda>n. None)") (auto simp: shift_def s)
  next
    case (Suc j)
    then show ?thesis by (simp add: s)
  qed
qed

lemma rg_shift_pos: "0 < p \<Longrightarrow> 0 < q \<Longrightarrow> rg e f k p r = rg e f k q r"
  using rg_shift[of 1 e f k "p - 1" r] rg_shift[of 1 e f k "q - 1" r] by simp







section \<open>Fenced code blocks\<close>

lemma trim_empty_iff: "trim s = [] \<longleftrightarrow> (\<forall>x\<in>set s. isWs x)"
proof -
  have "trim s = [] \<longleftrightarrow> dropWhile isWs (rev (dropWhile isWs s)) = []"
    by (simp add: trim_def)
  also have "\<dots> \<longleftrightarrow> (\<forall>x\<in>set (dropWhile isWs s). isWs x)"
    by (simp only: dropWhile_eq_Nil_conv set_rev)
  also have "\<dots> \<longleftrightarrow> dropWhile isWs s = []"
  proof (cases "dropWhile isWs s")
    case Nil
    show ?thesis unfolding Nil by simp
  next
    case (Cons y ys)
    have "\<not> isWs y" using hd_dropWhile[of isWs s] unfolding Cons by simp
    then show ?thesis unfolding Cons by auto
  qed
  finally show ?thesis by (simp only: dropWhile_eq_Nil_conv)
qed

lemma fenceLoop_eq:
  "fenceLoop mk ls j buf =
     (buf @ takeWhile (\<lambda>l. \<not> rtest (re_fenceEnd mk) l) ls,
      j + length (takeWhile (\<lambda>l. \<not> rtest (re_fenceEnd mk) l) ls))"
  by (induction ls arbitrary: j buf) auto

lemma parseFence_iff:
  "parseFence l \<noteq> None \<longleftrightarrow>
     (\<exists>a mk w1 lg w2. l = a @ mk @ w1 @ lg @ w2 \<and> (mk = ''```'' \<or> mk = ''~~~'') \<and>
        (\<forall>x\<in>set a. isWs x) \<and> (\<forall>x\<in>set w1. isWs x) \<and> (\<forall>x\<in>set w2. isWs x) \<and> (\<forall>x\<in>set lg. isLangCh x))"
proof
  assume "parseFence l \<noteq> None"
  then obtain p' r' m where "(p', r', m) \<in> set (ms re_fenceLine (0, l, \<lambda>n. None))"
    by (auto simp: parseFence_def re_fence_def rmatch_Bol split: list.splits)
  from fenceLine_sound[OF this] show "\<exists>a mk w1 lg w2. l = a @ mk @ w1 @ lg @ w2 \<and> (mk = ''```'' \<or> mk = ''~~~'') \<and>
        (\<forall>x\<in>set a. isWs x) \<and> (\<forall>x\<in>set w1. isWs x) \<and> (\<forall>x\<in>set w2. isWs x) \<and> (\<forall>x\<in>set lg. isLangCh x)"
    by blast
next
  assume "\<exists>a mk w1 lg w2. l = a @ mk @ w1 @ lg @ w2 \<and> (mk = ''```'' \<or> mk = ''~~~'') \<and>
        (\<forall>x\<in>set a. isWs x) \<and> (\<forall>x\<in>set w1. isWs x) \<and> (\<forall>x\<in>set w2. isWs x) \<and> (\<forall>x\<in>set lg. isLangCh x)"
  then have "ms re_fenceLine (0, l, \<lambda>n. None) \<noteq> []"
    using fenceLine_complete by blast
  then show "parseFence l \<noteq> None"
    by (auto simp: parseFence_def re_fence_def rmatch_Bol split: list.splits)
qed

lemma parseFence_Some:
  assumes "parseFence l = Some f"
  shows "\<exists>a w1 w2. l = a @ marker f @ w1 @ lang f @ w2 \<and> (marker f = ''```'' \<or> marker f = ''~~~'') \<and>
        (\<forall>x\<in>set a. isWs x) \<and> (\<forall>x\<in>set w1. isWs x) \<and> (\<forall>x\<in>set w2. isWs x) \<and>
        (\<forall>x\<in>set (lang f). isLangCh x) \<and> indent f = length a"
proof -
  from assms obtain m where r: "rmatch re_fence l = Some m"
    and f: "f = \<lparr>indent = length (cap m 1), marker = cap m 2, lang = cap m 3\<rparr>"
    by (cases "rmatch re_fence l") (auto simp: parseFence_def)
  from r obtain p' r' rest where "ms re_fenceLine (0, l, \<lambda>n. None) = (p', r', m) # rest"
    unfolding re_fence_def rmatch_Bol by (auto split: list.splits)
  then have "(p', r', m) \<in> set (ms re_fenceLine (0, l, \<lambda>n. None))"
    by simp
  from fenceLine_sound[OF this] show ?thesis
    unfolding f by auto
qed

lemma parseFence_not_blank:
  assumes "parseFence l = Some f"
  shows "trim l \<noteq> []"
proof -
  from parseFence_Some[OF assms] obtain a w1 w2 where
    "l = a @ marker f @ w1 @ lang f @ w2" "marker f = ''```'' \<or> marker f = ''~~~''" by blast
  then have "CHR 0x60 \<in> set l \<or> CHR ''~'' \<in> set l" by auto
  moreover have "\<not> isWs (CHR 0x60)" "\<not> isWs CHR ''~''" by (simp_all add: isWs_def)
  ultimately show ?thesis unfolding trim_empty_iff by blast
qed

lemma segStep_fence:
  assumes "parseFence (lines ! i) = Some f"
  shows "segStep lines i =
     (let body = takeWhile (\<lambda>l. \<not> rtest (re_fenceEnd (marker f)) l) (drop (i + 1) lines)
      in (Some (Code (lang f) (join [CHR 0x0A] body)),
          if i + 1 + length body < length lines then i + 2 + length body else i + 1 + length body))"
  using assms parseFence_not_blank[OF assms]
  by (simp add: segStep_def fenceLoop_eq Let_def)


text \<open>
  C7, as the program has it.  A fence opens at a line that is, after optional white
  space, exactly three backticks or exactly three tildes, then optional white space, an
  optional language tag of letters, digits, underscores and hyphens, and optional white
  space: a fourth backtick or tilde is not allowed.  The marker and the tag that
  parseFence returns are those of the line.  The fence closes at the first later line
  that holds the same three characters and white space only, or at the end of the
  input; the lines between are the content, and the cursor moves past the closing line.
\<close>

theorem fenced_code_block:
  "(parseFence l \<noteq> None \<longleftrightarrow>
      (\<exists>a mk w1 lg w2. l = a @ mk @ w1 @ lg @ w2 \<and> (mk = ''```'' \<or> mk = ''~~~'') \<and>
         (\<forall>x\<in>set a. isWs x) \<and> (\<forall>x\<in>set w1. isWs x) \<and> (\<forall>x\<in>set w2. isWs x) \<and>
         (\<forall>x\<in>set lg. isLangCh x)))
   \<and> (rtest (re_fenceEnd mk') l' \<longleftrightarrow>
      (\<exists>a b. l' = a @ mk' @ b \<and> (\<forall>x\<in>set a. isWs x) \<and> (\<forall>x\<in>set b. isWs x)))
   \<and> (parseFence (lines ! i) = Some f \<longrightarrow>
      (\<exists>a w1 w2. lines ! i = a @ marker f @ w1 @ lang f @ w2 \<and>
         (\<forall>x\<in>set a. isWs x) \<and> (\<forall>x\<in>set w1. isWs x) \<and> (\<forall>x\<in>set w2. isWs x) \<and>
         (\<forall>x\<in>set (lang f). isLangCh x) \<and> indent f = length a) \<and>
      (marker f = ''```'' \<or> marker f = ''~~~'') \<and>
      segStep lines i =
        (let body = takeWhile (\<lambda>l. \<not> rtest (re_fenceEnd (marker f)) l) (drop (i + 1) lines)
         in (Some (Code (lang f) (join [CHR 0x0A] body)),
             if i + 1 + length body < length lines then i + 2 + length body
             else i + 1 + length body)))
   \<and> (parseFence (lines ! i) = Some f \<and> i < length lines \<and>
        (\<forall>l\<in>set (drop (i + 1) lines). \<not> rtest (re_fenceEnd (marker f)) l) \<longrightarrow>
      segStep lines i = (Some (Code (lang f) (join [CHR 0x0A] (drop (i + 1) lines))), length lines))"
proof (intro conjI impI)
  show "parseFence l \<noteq> None \<longleftrightarrow>
      (\<exists>a mk w1 lg w2. l = a @ mk @ w1 @ lg @ w2 \<and> (mk = ''```'' \<or> mk = ''~~~'') \<and>
         (\<forall>x\<in>set a. isWs x) \<and> (\<forall>x\<in>set w1. isWs x) \<and> (\<forall>x\<in>set w2. isWs x) \<and>
         (\<forall>x\<in>set lg. isLangCh x))"
    by (rule parseFence_iff)
next
  show "rtest (re_fenceEnd mk') l' \<longleftrightarrow>
      (\<exists>a b. l' = a @ mk' @ b \<and> (\<forall>x\<in>set a. isWs x) \<and> (\<forall>x\<in>set b. isWs x))"
    by (rule fenceEnd_iff)
next
  assume "parseFence (lines ! i) = Some f"
  from parseFence_Some[OF this]
  show "\<exists>a w1 w2. lines ! i = a @ marker f @ w1 @ lang f @ w2 \<and>
         (\<forall>x\<in>set a. isWs x) \<and> (\<forall>x\<in>set w1. isWs x) \<and> (\<forall>x\<in>set w2. isWs x) \<and>
         (\<forall>x\<in>set (lang f). isLangCh x) \<and> indent f = length a"
    by blast
next
  assume "parseFence (lines ! i) = Some f"
  then show "marker f = ''```'' \<or> marker f = ''~~~''"
    using parseFence_Some by blast
next
  assume "parseFence (lines ! i) = Some f"
  then show "segStep lines i =
        (let body = takeWhile (\<lambda>l. \<not> rtest (re_fenceEnd (marker f)) l) (drop (i + 1) lines)
         in (Some (Code (lang f) (join [CHR 0x0A] body)),
             if i + 1 + length body < length lines then i + 2 + length body
             else i + 1 + length body))"
    by (rule segStep_fence)
next
  assume a: "parseFence (lines ! i) = Some f \<and> i < length lines \<and>
        (\<forall>l\<in>set (drop (i + 1) lines). \<not> rtest (re_fenceEnd (marker f)) l)"
  then have tw: "takeWhile (\<lambda>l. \<not> rtest (re_fenceEnd (marker f)) l) (drop (i + 1) lines) = drop (i + 1) lines"
    by (simp add: takeWhile_eq_all_conv)
  from a have pf: "parseFence (lines ! i) = Some f" and il: "i < length lines"
    by simp_all
  show "segStep lines i = (Some (Code (lang f) (join [CHR 0x0A] (drop (i + 1) lines))), length lines)"
    unfolding segStep_fence[OF pf] Let_def tw using il by auto
qed

text \<open>
  The witness: a fence with a language tag that is closed, and one that is not.
\<close>

theorem fenced_code_block_witness:
  "parseFence ([''```js'', ''a'', ''```'', ''b''] ! 0) = Some \<lparr>indent = 0, marker = ''```'', lang = ''js''\<rparr>
   \<and> (\<exists>a w1 w2. [''```js'', ''a'', ''```'', ''b''] ! 0 = a @ ''```'' @ w1 @ ''js'' @ w2 \<and> length a = 0)
   \<and> segStep [''```js'', ''a'', ''```'', ''b''] 0 = (Some (Code ''js'' ''a''), 3)
   \<and> parseFence ([''~~~'', ''a'', ''b''] ! 0) = Some \<lparr>indent = 0, marker = ''~~~'', lang = []\<rparr>
   \<and> (1::nat) < length [''~~~'', ''a'', ''b'']
   \<and> \<not> rtest (re_fenceEnd ''~~~'') ''a'' \<and> \<not> rtest (re_fenceEnd ''~~~'') ''b''
   \<and> segStep [''~~~'', ''a'', ''b''] 0 = (Some (Code [] (''a'' @ [CHR 0x0A] @ ''b'')), 3)"
proof -
  have p1: "parseFence ([''```js'', ''a'', ''```'', ''b''] ! 0) = Some \<lparr>indent = 0, marker = ''```'', lang = ''js''\<rparr>"
    by code_simp
  have b1: "takeWhile (\<lambda>l. \<not> rtest (re_fenceEnd ''```'') l) (drop (0 + 1) [''```js'', ''a'', ''```'', ''b'']) = [''a'']"
    by code_simp
  have p2: "parseFence ([''~~~'', ''a'', ''b''] ! 0) = Some \<lparr>indent = 0, marker = ''~~~'', lang = []\<rparr>"
    by code_simp
  have n2: "\<not> rtest (re_fenceEnd ''~~~'') ''a''" "\<not> rtest (re_fenceEnd ''~~~'') ''b''"
    by code_simp+
  note t1 = fenced_code_block[of "[]" "[]" "[]" "[''```js'', ''a'', ''```'', ''b'']" 0
      "\<lparr>indent = 0, marker = ''```'', lang = ''js''\<rparr>"]
  note t2 = fenced_code_block[of "[]" "[]" "[]" "[''~~~'', ''a'', ''b'']" 0
      "\<lparr>indent = 0, marker = ''~~~'', lang = []\<rparr>"]
  from t1 p1 have "\<exists>a w1 w2. [''```js'', ''a'', ''```'', ''b''] ! 0 =
        a @ marker \<lparr>indent = 0, marker = ''```'', lang = ''js''\<rparr> @ w1 @
        lang \<lparr>indent = 0, marker = ''```'', lang = ''js''\<rparr> @ w2 \<and>
        (\<forall>x\<in>set a. isWs x) \<and> (\<forall>x\<in>set w1. isWs x) \<and> (\<forall>x\<in>set w2. isWs x) \<and>
        (\<forall>x\<in>set (lang \<lparr>indent = 0, marker = ''```'', lang = ''js''\<rparr>). isLangCh x) \<and>
        indent \<lparr>indent = 0, marker = ''```'', lang = ''js''\<rparr> = length a"
    by blast
  then obtain a w1 w2 where "[''```js'', ''a'', ''```'', ''b''] ! 0 = a @ ''```'' @ w1 @ ''js'' @ w2" "length a = 0"
    by auto
  then have d1: "\<exists>a w1 w2. [''```js'', ''a'', ''```'', ''b''] ! 0 = a @ ''```'' @ w1 @ ''js'' @ w2 \<and> length a = 0"
    by blast
  have s1: "segStep [''```js'', ''a'', ''```'', ''b''] 0 = (Some (Code ''js'' ''a''), 3)"
    using t1 p1 b1 by (simp add: Let_def)
  have s2: "segStep [''~~~'', ''a'', ''b''] 0 = (Some (Code [] (''a'' @ [CHR 0x0A] @ ''b'')), 3)"
    using t2 p2 n2 by simp
  from p1 d1 s1 p2 n2 s2 show ?thesis by simp
qed


text \<open>
  The claim as stated allows a delimiter of more than three backticks, and a closing
  line longer than the opening one.  Four backticks do not open a fence, and a line of
  four backticks does not close a fence of three: it becomes part of the content.
\<close>

theorem fence_is_exactly_three:
  "parseFence ''````'' = None
   \<and> segStep [''````'', ''code'', ''````''] 0 = (Some (Paragraph [''````'', ''code'', ''````'']), 3)
   \<and> segStep [''```'', ''code'', ''````''] 0 = (Some (Code [] (''code'' @ [CHR 0x0A] @ ''````'')), 3)"
  by code_simp


section \<open>Replacing single characters\<close>

lemma rg_chr:
  "rg (chr k) (\<lambda>m c. r) 0 p s = concat (map (\<lambda>x. if x = k then r else [x]) s)"
  by (induction s arbitrary: p) (auto simp: chr_def)

lemma replaceAll_chr:
  "replaceAll (chr k) (\<lambda>m c. r) s = concat (map (\<lambda>x. if x = k then r else [x]) s)"
  by (simp add: replaceAll_def rg_chr)

lemma concat_map_concat_map:
  "concat (map g (concat (map f s))) = concat (map (\<lambda>x. concat (map g (f x))) s)"
  by (induction s) auto

lemma escapeHtml_chars: "escapeHtml s = concat (map escapeCh s)"
  unfolding escapeHtml_def replaceAll_chr concat_map_concat_map
  by (rule arg_cong[where f=concat], rule map_cong[OF refl]) (simp add: escapeCh_def)



lemma escapeHtml_keeps_backticks_out: "BT \<notin> set c \<Longrightarrow> BT \<notin> set (escapeHtml c)"
  unfolding escapeHtml_chars by (auto simp: escapeCh_def split: if_splits)

lemma escapeHtml_nonempty: "c \<noteq> [] \<Longrightarrow> escapeHtml c \<noteq> []"
  unfolding escapeHtml_chars by (cases c) (auto simp: escapeCh_def)

section \<open>The link safety policy\<close>

text \<open>
  C1, as the program has it.  With the flag off, safeLinkHref trims the candidate; the
  result is empty when the trimmed candidate begins, in any letter case, with
  \<^verbatim>\<open>javascript:\<close>, \<^verbatim>\<open>vbscript:\<close> or \<^verbatim>\<open>data:\<close>, and is the trimmed candidate
  otherwise (so empty for a candidate of white space only).
\<close>

theorem safeLinkHref_rejects_or_trims:
  "safeLinkHref href False =
     (if startsWith (toLowerCase (trim href)) ''javascript:''
         \<or> startsWith (toLowerCase (trim href)) ''vbscript:''
         \<or> startsWith (toLowerCase (trim href)) ''data:''
      then [] else trim href)"
  by (simp add: safeLinkHref_def Let_def)

text \<open>
  The claim as stated says that every other candidate comes back verbatim.  A relative
  path with a space before it is such a candidate, and it comes back without the space.
\<close>

theorem safeLinkHref_not_verbatim:
  "safeLinkHref '' /a'' False = ''/a'' \<and> safeLinkHref '' /a'' False \<noteq> '' /a''"
  by code_simp

text \<open>
  C8, as the program has it.  With the flag on, safeLinkHref returns the candidate with
  the white space at both ends removed and makes no other check; a candidate with none,
  such as \<^verbatim>\<open>javascript:x\<close>, comes back unchanged.
\<close>

theorem safeLinkHref_allowUnsafe:
  "safeLinkHref href True = trim href \<and> safeLinkHref ''javascript:x'' True = ''javascript:x''"
proof
  show "safeLinkHref href True = trim href"
    by (simp add: safeLinkHref_def Let_def)
  show "safeLinkHref ''javascript:x'' True = ''javascript:x''"
    by code_simp
qed

text \<open>The claim as stated says unchanged for every candidate; a padded one is trimmed.\<close>

theorem safeLinkHref_allowUnsafe_trims:
  "safeLinkHref '' javascript:x '' True = ''javascript:x''
   \<and> safeLinkHref '' javascript:x '' True \<noteq> '' javascript:x ''"
  by code_simp

section \<open>The patterns of the inline renderer\<close>

text \<open>
  What the code stage, the link stage and the stages after it do on a text of a known
  shape: where a pattern matches first, and where it cannot match.
\<close>

lemma re_code_unfold:
  "re_code = Seq (Grp 1 (Alt Bol (Cls (\<lambda>x. x \<noteq> BT))))
     (Seq (Cls (\<lambda>x. x = BT))
     (Seq (Grp 2 (Rep (Suc 0) None True (Cls (\<lambda>x. x \<noteq> BT))))
     (Seq (Cls (\<lambda>x. x = BT)) (NotAhead (Cls (\<lambda>x. x = BT))))))"
  by (simp add: re_code_def noneOf_def chr_def plus_def)

lemma must_code: "must (\<lambda>x. x = BT) re_code"
  by (simp add: re_code_def chr_def)

lemma code_no_match: "x \<noteq> BT \<Longrightarrow> xs = [] \<or> hd xs \<noteq> BT \<Longrightarrow> ms re_code (p, x # xs, cc) = []"
  unfolding re_code_unfold by (cases xs) auto

lemma code_no_match_Nil: "ms re_code (p, [], cc) = []"
  unfolding re_code_unfold by simp

lemma code_tail_first:
  assumes "c \<noteq> []" "BT \<notin> set c" "post = [] \<or> hd post \<noteq> BT"
  shows "firstMatch (Seq (Cls (\<lambda>x. x = BT))
     (Seq (Grp 2 (Rep (Suc 0) None True (Cls (\<lambda>x. x \<noteq> BT))))
     (Seq (Cls (\<lambda>x. x = BT)) (NotAhead (Cls (\<lambda>x. x = BT)))))) (p, BT # c @ BT # post, cc)
   = Some (p + length c + 2, post, cc(2 \<mapsto> c))"
proof -
  from assms obtain x xs where c: "c = x # xs" and x: "x \<noteq> BT" by (cases c) auto
  have tw: "takeWhile (\<lambda>x. x \<noteq> BT) (c @ BT # post) = c"
    using assms(2) by (subst takeWhile_append2) auto
  have dw: "dropWhile (\<lambda>x. x \<noteq> BT) (c @ BT # post) = BT # post"
    using assms(2) by (subst dropWhile_append2) auto
  have s1: "firstMatch (Cls (\<lambda>x. x = BT)) (p, BT # c @ BT # post, cc) = Some (Suc p, c @ BT # post, cc)"
    by (rule fm_Cls) simp
  have "firstMatch (Rep (Suc 0) None True (Cls (\<lambda>x. x \<noteq> BT))) (Suc p, x # xs @ BT # post, cc)
      = Some (Suc p + length (takeWhile (\<lambda>x. x \<noteq> BT) (x # xs @ BT # post)),
              dropWhile (\<lambda>x. x \<noteq> BT) (x # xs @ BT # post), cc)"
    by (rule fm_plus) (rule x)
  then have s2: "firstMatch (Rep (Suc 0) None True (Cls (\<lambda>x. x \<noteq> BT))) (Suc p, c @ BT # post, cc)
      = Some (Suc p + length c, BT # post, cc)"
    using tw dw by (simp add: c)
  have s2g: "firstMatch (Grp 2 (Rep (Suc 0) None True (Cls (\<lambda>x. x \<noteq> BT)))) (Suc p, c @ BT # post, cc)
      = Some (Suc p + length c, BT # post, cc(2 \<mapsto> c))"
    using fm_Grp[OF s2, of 2] by simp
  have s3: "firstMatch (Cls (\<lambda>x. x = BT)) (Suc p + length c, BT # post, cc(2 \<mapsto> c))
      = Some (Suc (Suc p + length c), post, cc(2 \<mapsto> c))"
    by (rule fm_Cls) simp
  have "ms (Cls (\<lambda>x. x = BT)) (Suc (Suc p + length c), post, cc(2 \<mapsto> c)) = []"
    using assms(3) by (cases post) auto
  then have s4: "firstMatch (NotAhead (Cls (\<lambda>x. x = BT))) (Suc (Suc p + length c), post, cc(2 \<mapsto> c))
      = Some (Suc (Suc p + length c), post, cc(2 \<mapsto> c))"
    by (rule fm_NotAhead)
  have "firstMatch (Seq (Cls (\<lambda>x. x = BT))
     (Seq (Grp 2 (Rep (Suc 0) None True (Cls (\<lambda>x. x \<noteq> BT))))
     (Seq (Cls (\<lambda>x. x = BT)) (NotAhead (Cls (\<lambda>x. x = BT)))))) (p, BT # c @ BT # post, cc)
   = Some (Suc (Suc p + length c), post, cc(2 \<mapsto> c))"
    by (rule fm_Seq[OF s1], rule fm_Seq[OF s2g], rule fm_Seq[OF s3], rule s4)
  then show ?thesis by simp
qed

lemma code_first_start:
  assumes "c \<noteq> []" "BT \<notin> set c" "post = [] \<or> hd post \<noteq> BT"
  shows "firstMatch re_code (0, BT # c @ BT # post, \<lambda>n. None) =
     Some (length c + 2, post, (\<lambda>n. None)(1 \<mapsto> [], 2 \<mapsto> c))"
proof -
  have g: "firstMatch (Grp 1 (Alt Bol (Cls (\<lambda>x. x \<noteq> BT)))) (0, BT # c @ BT # post, \<lambda>n. None)
      = Some (0, BT # c @ BT # post, (\<lambda>n. None)(1 \<mapsto> []))"
    by (simp add: firstMatch_def)
  show ?thesis
    unfolding re_code_unfold
    using fm_Seq[OF g code_tail_first[OF assms, of 0 "(\<lambda>n. None)(1 \<mapsto> [])"]] by simp
qed

lemma code_first_after:
  assumes "c \<noteq> []" "BT \<notin> set c" "post = [] \<or> hd post \<noteq> BT" "x \<noteq> BT"
  shows "firstMatch re_code (p, x # BT # c @ BT # post, \<lambda>n. None) =
     Some (p + length c + 3, post, (\<lambda>n. None)(1 \<mapsto> [x], 2 \<mapsto> c))"
proof -
  let ?R = "Seq (Cls (\<lambda>x. x = BT))
     (Seq (Grp 2 (Rep (Suc 0) None True (Cls (\<lambda>x. x \<noteq> BT))))
     (Seq (Cls (\<lambda>x. x = BT)) (NotAhead (Cls (\<lambda>x. x = BT)))))"
  have "ms (Seq (Grp 1 (Alt Bol (Cls (\<lambda>x. x \<noteq> BT)))) ?R) (p, x # BT # c @ BT # post, \<lambda>n. None)
      = ms ?R (Suc p, BT # c @ BT # post, (\<lambda>n. None)(1 \<mapsto> [x]))"
    using assms(4) by (subst ms.simps(3)) simp
  then have "firstMatch re_code (p, x # BT # c @ BT # post, \<lambda>n. None)
      = firstMatch ?R (Suc p, BT # c @ BT # post, (\<lambda>n. None)(1 \<mapsto> [x]))"
    unfolding re_code_unfold firstMatch_def by (simp only:)
  then show ?thesis
    using code_tail_first[OF assms(1,2,3), of "Suc p" "(\<lambda>n. None)(1 \<mapsto> [x])"] by simp
qed

lemma rg_code_scan:
  "BT \<notin> set u \<Longrightarrow> r = [] \<or> hd r \<noteq> BT \<Longrightarrow>
   rg re_code f 0 p (u @ r) = u @ rg re_code f 0 (p + length u) r"
proof (induction u arbitrary: p)
  case Nil
  show ?case by simp
next
  case (Cons x u)
  have h: "u @ r = [] \<or> hd (u @ r) \<noteq> BT"
    using Cons.prems by (cases u) auto
  have "x \<noteq> BT" using Cons.prems by auto
  then have "ms re_code (p, x # u @ r, \<lambda>n. None) = []"
    using h by (rule code_no_match)
  with Cons show ?case by simp
qed

lemma rg_code_span:
  assumes "BT \<notin> set pre" "c \<noteq> []" "BT \<notin> set c" "post = [] \<or> hd post \<noteq> BT"
  shows "rg re_code (\<lambda>m cc. codeRepl (cap cc 1) (cap cc 2)) 0 0 (pre @ BT # c @ BT # post) =
     pre @ ''<code>'' @ c @ ''</code>'' @
     rg re_code (\<lambda>m cc. codeRepl (cap cc 1) (cap cc 2)) 0 (length pre + length c + 2) post"
proof (cases pre rule: rev_cases)
  case Nil
  have "rg re_code (\<lambda>m cc. codeRepl (cap cc 1) (cap cc 2)) 0 0 ((BT # c @ [BT]) @ post) =
      codeRepl (cap ((\<lambda>n. None)(1 \<mapsto> [], 2 \<mapsto> c)) 1) (cap ((\<lambda>n. None)(1 \<mapsto> [], 2 \<mapsto> c)) 2) @
      rg re_code (\<lambda>m cc. codeRepl (cap cc 1) (cap cc 2)) 0 (0 + length (BT # c @ [BT])) post"
    by (rule rg_first_Some) (use code_first_start[OF assms(2,3,4)] in simp_all)
  then show ?thesis
    by (simp add: Nil codeRepl_def cap_def)
next
  case (snoc u x)
  have x: "x \<noteq> BT" and u: "BT \<notin> set u" using assms(1) snoc by auto
  have 1: "rg re_code (\<lambda>m cc. codeRepl (cap cc 1) (cap cc 2)) 0 0 (u @ x # BT # c @ BT # post) =
      u @ rg re_code (\<lambda>m cc. codeRepl (cap cc 1) (cap cc 2)) 0 (0 + length u) (x # BT # c @ BT # post)"
    by (rule rg_code_scan) (use u x in simp_all)
  have 2: "rg re_code (\<lambda>m cc. codeRepl (cap cc 1) (cap cc 2)) 0 (length u) ((x # BT # c @ [BT]) @ post) =
      codeRepl (cap ((\<lambda>n. None)(1 \<mapsto> [x], 2 \<mapsto> c)) 1) (cap ((\<lambda>n. None)(1 \<mapsto> [x], 2 \<mapsto> c)) 2) @
      rg re_code (\<lambda>m cc. codeRepl (cap cc 1) (cap cc 2)) 0 (length u + length (x # BT # c @ [BT])) post"
    by (rule rg_first_Some) (use code_first_after[OF assms(2,3,4) x, of "length u"] in simp_all)
  show ?thesis
    using 1 2 by (simp add: snoc codeRepl_def cap_def)
qed

lemma rg_code_restart:
  assumes "post = [] \<or> hd post \<noteq> BT" "0 < q"
  shows "rg re_code f 0 q post = rg re_code f 0 0 post"
proof (cases post)
  case Nil
  then show ?thesis by (simp add: code_no_match_Nil)
next
  case (Cons x xs)
  with assms have x: "x \<noteq> BT" by simp
  let ?R = "Seq (Cls (\<lambda>x. x = BT))
     (Seq (Grp 2 (Rep (Suc 0) None True (Cls (\<lambda>x. x \<noteq> BT))))
     (Seq (Cls (\<lambda>x. x = BT)) (NotAhead (Cls (\<lambda>x. x = BT)))))"
  have m: "ms re_code (p, x # xs, \<lambda>n. None) = ms ?R (Suc p, xs, (\<lambda>n. None)(1 \<mapsto> [x]))" for p
    unfolding re_code_unfold using x by (subst ms.simps(3)) simp
  have "ms re_code (1, x # xs, \<lambda>n. None) = map (shift 1) (ms re_code (0, x # xs, \<lambda>n. None))"
    unfolding m using ms_shift[of 1 ?R 1 xs "(\<lambda>n. None)(1 \<mapsto> [x])"] by simp
  then have "rg re_code f 0 1 (x # xs) = rg re_code f 0 0 (x # xs)"
    using rg_shift[of 1 re_code f _ 1 xs]
    by (cases "ms re_code (0, x # xs, \<lambda>n. None)") (auto simp: shift_def)
  then show ?thesis
    using rg_shift_pos[OF assms(2), of 1 re_code f 0 post] by (simp add: Cons)
qed

lemma stageCode_span_in_text:
  assumes "BT \<notin> set pre" "c \<noteq> []" "BT \<notin> set c" "post = [] \<or> hd post \<noteq> BT"
  shows "stageCode (pre @ BT # c @ BT # post) = pre @ ''<code>'' @ c @ ''</code>'' @ stageCode post"
  unfolding stageCode_def replaceAll_def rg_code_span[OF assms]
  using rg_code_restart[OF assms(4), of "length pre + length c + 2"] by simp

lemma stageCode_none: "BT \<notin> set s \<Longrightarrow> stageCode s = s"
  unfolding stageCode_def by (rule replaceAll_no_match[OF must_code]) blast

lemma code_tail_blocked:
  assumes "BT \<notin> set c"
  shows "ms (Seq (Cls (\<lambda>x. x = BT))
     (Seq (Grp 2 (Rep (Suc 0) None True (Cls (\<lambda>x. x \<noteq> BT))))
     (Seq (Cls (\<lambda>x. x = BT)) (NotAhead (Cls (\<lambda>x. x = BT)))))) (p, BT # c @ BT # BT # rest, cc) = []"
proof -
  have "ms (Seq (Grp 2 (Rep (Suc 0) None True (Cls (\<lambda>x. x \<noteq> BT))))
     (Seq (Cls (\<lambda>x. x = BT)) (NotAhead (Cls (\<lambda>x. x = BT))))) (Suc p, c @ BT # BT # rest, cc) = []"
  proof (rule ccontr)
    assume "ms (Seq (Grp 2 (Rep (Suc 0) None True (Cls (\<lambda>x. x \<noteq> BT))))
     (Seq (Cls (\<lambda>x. x = BT)) (NotAhead (Cls (\<lambda>x. x = BT))))) (Suc p, c @ BT # BT # rest, cc) \<noteq> []"
    then have "\<exists>mid\<in>set (ms (Grp 2 (Rep (Suc 0) None True (Cls (\<lambda>x. x \<noteq> BT)))) (Suc p, c @ BT # BT # rest, cc)).
        ms (Seq (Cls (\<lambda>x. x = BT)) (NotAhead (Cls (\<lambda>x. x = BT)))) mid \<noteq> []"
      by (simp only: ms_Seq_ne)
    then obtain mid where
      g0: "mid \<in> set (ms (Grp 2 (Rep (Suc 0) None True (Cls (\<lambda>x. x \<noteq> BT)))) (Suc p, c @ BT # BT # rest, cc))" and
      t0: "ms (Seq (Cls (\<lambda>x. x = BT)) (NotAhead (Cls (\<lambda>x. x = BT)))) mid \<noteq> []"
      by blast
    obtain p1 r1 c1 where mid: "mid = (p1, r1, c1)" by (cases mid)
    note g = g0[unfolded mid] and t = t0[unfolded mid]
    from g obtain a where a: "c @ BT # BT # rest = a @ r1" "\<forall>x\<in>set a. x \<noteq> BT"
      unfolding in_Grp_plus by blast
    from t have "\<exists>m2\<in>set (ms (Cls (\<lambda>x. x = BT)) (p1, r1, c1)). ms (NotAhead (Cls (\<lambda>x. x = BT))) m2 \<noteq> []"
      by (simp only: ms_Seq_ne)
    then obtain m2 where
      b0: "m2 \<in> set (ms (Cls (\<lambda>x. x = BT)) (p1, r1, c1))" and
      n0: "ms (NotAhead (Cls (\<lambda>x. x = BT))) m2 \<noteq> []"
      by blast
    obtain p2 r2 c2 where m2: "m2 = (p2, r2, c2)" by (cases m2)
    note b = b0[unfolded m2] and n = n0[unfolded m2]
    from b have r1: "r1 = BT # r2" unfolding ms_Cls_iff by simp
    have e: "c @ BT # BT # rest = a @ BT # r2"
      using a(1) unfolding r1 .
    have tc: "takeWhile (\<lambda>x. x \<noteq> BT) (c @ BT # BT # rest) = c"
      using assms by (subst takeWhile_append2) auto
    have ta: "takeWhile (\<lambda>x. x \<noteq> BT) (a @ BT # r2) = a"
      using a(2) by (subst takeWhile_append2) auto
    have ac: "a = c"
      using tc ta unfolding e by (simp only:)
    have "BT # BT # rest = BT # r2"
      using e unfolding ac by (simp only: same_append_eq)
    then have "r2 = BT # rest" by (simp only: list.inject)
    then have "ms (NotAhead (Cls (\<lambda>x. x = BT))) (p2, r2, c2) = []"
      by simp
    with n show False by blast
  qed
  moreover have "ms (Cls (\<lambda>x. x = BT)) (p, BT # c @ BT # BT # rest, cc) = [(Suc p, c @ BT # BT # rest, cc)]"
    by simp
  ultimately show ?thesis
    by (subst ms.simps(3)) (simp only: list.map concat.simps append_Nil2)
qed

lemma code_group1_BT:
  "ms (Grp 1 (Alt Bol (Cls (\<lambda>x. x \<noteq> BT)))) (p, BT # r, cc) =
     (if p = 0 then [(p, BT # r, cc(1 \<mapsto> []))] else [])"
  by simp

lemma code_group1_other:
  "x \<noteq> BT \<Longrightarrow> ms (Grp 1 (Alt Bol (Cls (\<lambda>x. x \<noteq> BT)))) (p, x # r, cc) =
     (if p = 0 then [(p, x # r, cc(1 \<mapsto> []))] else []) @ [(Suc p, r, cc(1 \<mapsto> [x]))]"
  by simp

lemma code_blocked_start:
  assumes "BT \<notin> set c"
  shows "ms re_code (p, BT # c @ BT # BT # rest, cc) = []"
  unfolding re_code_unfold
  by (subst ms.simps(3), subst code_group1_BT)
     (simp only: code_tail_blocked[OF assms] list.map concat.simps append_Nil2 if_distrib[of "map _"] if_distrib[of concat] if_cancel)

lemma code_blocked_after:
  assumes "BT \<notin> set c" "x \<noteq> BT"
  shows "ms re_code (p, x # BT # c @ BT # BT # rest, cc) = []"
proof -
  have h: "ms (Seq (Cls (\<lambda>x. x = BT)) R) (q, x # r, c') = []" for R q r c'
    using assms(2) by simp
  show ?thesis
    unfolding re_code_unfold
    by (subst ms.simps(3), subst code_group1_other[OF assms(2)])
       (simp only: code_tail_blocked[OF assms(1)] h list.map concat.simps append_Nil2 map_append concat_append
          if_distrib[of "map _"] if_distrib[of concat] if_cancel)
qed

lemma code_no_match_BT: "0 < p \<Longrightarrow> ms re_code (p, BT # r, cc) = []"
  unfolding re_code_unfold by simp

lemma code_no_match_BT2: "ms re_code (p, BT # BT # r, cc) = []"
  unfolding re_code_unfold by (simp add: ms_plus_Cls)

lemma code_no_match_x2: "ms re_code (p, x # BT # BT # r, cc) = []"
  unfolding re_code_unfold by (simp add: ms_plus_Cls)


lemma rg_code_double:
  assumes "BT \<notin> set pre" "c \<noteq> []" "BT \<notin> set c" "post = [] \<or> hd post \<noteq> BT"
  shows "rg re_code f 0 0 (pre @ BT # c @ BT # BT # post) = pre @ BT # c @ BT # BT # rg re_code f 0 0 post"
proof -
  from assms(2) obtain v y where c: "c = v @ [y]" by (cases c rule: rev_cases) auto
  have y: "y \<noteq> BT" and v: "BT \<notin> set v" using assms(3) c by auto
  have tail: "rg re_code f 0 q (c @ BT # BT # post) = c @ BT # BT # rg re_code f 0 0 post" if "0 < q" for q
  proof -
    have 1: "rg re_code f 0 q (v @ y # BT # BT # post) = v @ rg re_code f 0 (q + length v) (y # BT # BT # post)"
      by (rule rg_code_scan) (use v y in simp_all)
    have 2: "rg re_code f 0 (Suc (Suc (Suc (q + length v)))) post = rg re_code f 0 0 post"
      by (rule rg_code_restart[OF assms(4)]) simp
    have 3: "rg re_code f 0 (q + length v) (y # BT # BT # post) =
        y # BT # BT # rg re_code f 0 (Suc (Suc (Suc (q + length v)))) post"
      by (simp add: code_no_match_x2 code_no_match_BT2 code_no_match_BT)
    show ?thesis
      unfolding c using 1 2 3 by simp
  qed
  show ?thesis
  proof (cases pre rule: rev_cases)
    case Nil
    have "rg re_code f 0 0 (BT # c @ BT # BT # post) = BT # rg re_code f 0 1 (c @ BT # BT # post)"
      by (simp add: code_blocked_start[OF assms(3)])
    then show ?thesis
      using tail[of 1] by (simp add: Nil)
  next
    case (snoc u x)
    have x: "x \<noteq> BT" and u: "BT \<notin> set u" using assms(1) snoc by auto
    have 1: "rg re_code f 0 0 (u @ x # BT # c @ BT # BT # post) =
        u @ rg re_code f 0 (0 + length u) (x # BT # c @ BT # BT # post)"
      by (rule rg_code_scan) (use u x in simp_all)
    have 2: "rg re_code f 0 (length u) (x # BT # c @ BT # BT # post) =
        x # BT # rg re_code f 0 (Suc (Suc (length u))) (c @ BT # BT # post)"
      by (simp add: code_blocked_after[OF assms(3) x] code_no_match_BT)
    show ?thesis
      using 1 2 tail[of "Suc (Suc (length u))"] by (simp add: snoc)
  qed
qed

lemma stageCode_span_blocked:
  assumes "BT \<notin> set pre" "c \<noteq> []" "BT \<notin> set c" "post = [] \<or> hd post \<noteq> BT"
  shows "stageCode (pre @ BT # c @ BT # BT # post) = pre @ BT # c @ BT # BT # stageCode post"
  unfolding stageCode_def replaceAll_def by (rule rg_code_double[OF assms])















































section \<open>Links in the inline renderer\<close>

lemma escapeAttr_hash: \<open>escapeAttr ''#'' = ''#''\<close>
  by code_simp










lemma ex_link: \<open>renderInline ''[x](javascript:alert(1))'' defaultOpts =
    ''<a href="#" target="_blank" rel="noopener noreferrer">x</a>)''\<close>
  by code_simp

lemma ex_image: \<open>renderInline ''![a](javascript:x)'' defaultOpts = []\<close>
  by code_simp

text \<open>
  C2.  With the default options, where safeLinkHref rejects the url the image
  replacement is the empty string, the link replacement is an anchor with href
  \<^verbatim>\<open>#\<close> around the label, and the bare URL replacement is the matched text itself.
  The inputs \<^verbatim>\<open>![a](javascript:x)\<close> and \<^verbatim>\<open>[x](javascript:alert(1))\<close> are rendered
  accordingly (the url of the second ends at the first closing parenthesis, so the
  second one is left over).
\<close>

theorem unsafe_url_neutralised:
  \<open>(safeLinkHref (unescapeHtml url) (allowUnsafeLinks defaultOpts) = [] \<longrightarrow>
      imageRepl defaultOpts alt url title = []
      \<and> linkRepl defaultOpts label url title =
          ''<a href="#"'' @ titleAttr title @ '' target="_blank" rel="noopener noreferrer">'' @ label @ ''</a>''
      \<and> bareUrlRepl defaultOpts p1 url = p1 @ url)
   \<and> renderInline ''![a](javascript:x)'' defaultOpts = []
   \<and> renderInline ''[x](javascript:alert(1))'' defaultOpts =
        ''<a href="#" target="_blank" rel="noopener noreferrer">x</a>)''\<close>
  by (simp add: imageRepl_def linkRepl_def bareUrlRepl_def Let_def escapeAttr_hash targetAttr_def
        defaultOpts_def ex_link[unfolded defaultOpts_def] ex_image[unfolded defaultOpts_def])

lemma rejected: "safeLinkHref (unescapeHtml ''javascript:alert(1'') (allowUnsafeLinks defaultOpts) = []"
  by code_simp

theorem unsafe_url_neutralised_witness:
  \<open>safeLinkHref (unescapeHtml ''javascript:alert(1'') (allowUnsafeLinks defaultOpts) = []
   \<and> imageRepl defaultOpts ''x'' ''javascript:alert(1'' None = []
   \<and> linkRepl defaultOpts ''x'' ''javascript:alert(1'' None =
        ''<a href="#" target="_blank" rel="noopener noreferrer">x</a>''
   \<and> bareUrlRepl defaultOpts '' '' ''javascript:alert(1'' = '' javascript:alert(1''\<close>
  using unsafe_url_neutralised[of "''javascript:alert(1''" "''x''" None "''x''" "'' ''"] rejected
  by (simp add: titleAttr_def)

section \<open>Inline code spans and escaping\<close>

lemma escapeHtml_hd:
  assumes "post = [] \<or> hd post \<noteq> BT"
  shows "escapeHtml post = [] \<or> hd (escapeHtml post) \<noteq> BT"
proof (cases post)
  case Nil
  then show ?thesis by (simp add: escapeHtml_chars)
next
  case (Cons x xs)
  with assms have "x \<noteq> BT" by simp
  then show ?thesis
    unfolding Cons escapeHtml_chars by (simp add: escapeCh_def)
qed

lemma escapeHtml_span:
  "escapeHtml (pre @ [BT] @ c @ [BT] @ post) =
     escapeHtml pre @ BT # escapeHtml c @ BT # escapeHtml post"
  by (simp add: escapeHtml_chars escapeCh_def)

lemma code_span_stage:
  assumes "BT \<notin> set pre" "c \<noteq> []" "BT \<notin> set c" "post = [] \<or> hd post \<noteq> BT"
  shows "stageCode (escapeHtml (pre @ [BT] @ c @ [BT] @ post)) =
     escapeHtml pre @ ''<code>'' @ escapeHtml c @ ''</code>'' @ stageCode (escapeHtml post)"
  unfolding escapeHtml_span
  by (rule stageCode_span_in_text[OF escapeHtml_keeps_backticks_out[OF assms(1)]
        escapeHtml_nonempty[OF assms(2)] escapeHtml_keeps_backticks_out[OF assms(3)]
        escapeHtml_hd[OF assms(4)]])

lemma escapeHtml_span2:
  "escapeHtml (pre @ [BT] @ c @ [BT, BT] @ post) =
     escapeHtml pre @ BT # escapeHtml c @ BT # BT # escapeHtml post"
  by (simp add: escapeHtml_chars escapeCh_def)

lemma code_span_blocked:
  assumes "BT \<notin> set pre" "c \<noteq> []" "BT \<notin> set c" "post = [] \<or> hd post \<noteq> BT"
  shows "stageCode (escapeHtml (pre @ [BT] @ c @ [BT, BT] @ post)) =
     escapeHtml pre @ [BT] @ escapeHtml c @ [BT, BT] @ stageCode (escapeHtml post)"
  unfolding escapeHtml_span2
  using stageCode_span_blocked[OF escapeHtml_keeps_backticks_out[OF assms(1)]
        escapeHtml_nonempty[OF assms(2)] escapeHtml_keeps_backticks_out[OF assms(3)]
        escapeHtml_hd[OF assms(4)]]
  by simp

lemma code_stage_without_backtick: "BT \<notin> set t \<Longrightarrow> stageCode (escapeHtml t) = escapeHtml t"
  by (rule stageCode_none[OF escapeHtml_keeps_backticks_out])

text \<open>
  C4, as the program has it.  In a text that begins with a part without backticks,
  then has a span of one backtick, a non-empty code without backticks and one backtick,
  and goes on with something other than a backtick, the code stage leaves the first
  part, puts a \<^verbatim>\<open><code>\<close> element around the escaped code, and treats the rest of the
  text as it would treat it alone; a text without backticks it leaves as it is, and a
  span that a second backtick follows it does not convert.  The later stages then run
  over the whole string, the content of the element included: renderInline of the text
  is what they make of it, and markers inside the backticks are converted.
\<close>

theorem inline_code_span:
  "(BT \<notin> set pre \<and> c \<noteq> [] \<and> BT \<notin> set c \<and> (post = [] \<or> hd post \<noteq> BT) \<longrightarrow>
      stageCode (escapeHtml (pre @ [BT] @ c @ [BT] @ post)) =
        escapeHtml pre @ ''<code>'' @ escapeHtml c @ ''</code>'' @ stageCode (escapeHtml post)
      \<and> renderInline (pre @ [BT] @ c @ [BT] @ post) options =
          laterStages options
            (escapeHtml pre @ ''<code>'' @ escapeHtml c @ ''</code>'' @ stageCode (escapeHtml post)))
   \<and> (BT \<notin> set pre \<and> c \<noteq> [] \<and> BT \<notin> set c \<and> BT \<notin> set post \<longrightarrow>
      renderInline (pre @ [BT] @ c @ [BT] @ post) options =
        laterStages options (escapeHtml pre @ ''<code>'' @ escapeHtml c @ ''</code>'' @ escapeHtml post))
   \<and> (BT \<notin> set post \<longrightarrow> stageCode (escapeHtml post) = escapeHtml post)
   \<and> (BT \<notin> set pre \<and> c \<noteq> [] \<and> BT \<notin> set c \<and> (post = [] \<or> hd post \<noteq> BT) \<longrightarrow>
      stageCode (escapeHtml (pre @ [BT] @ c @ [BT, BT] @ post)) =
        escapeHtml pre @ [BT] @ escapeHtml c @ [BT, BT] @ stageCode (escapeHtml post))
   \<and> renderInline ''x `a_b_c` y'' defaultOpts = ''x <code>a<em>b</em>c</code> y''"
proof (intro conjI impI)
  assume a: "BT \<notin> set pre \<and> c \<noteq> [] \<and> BT \<notin> set c \<and> (post = [] \<or> hd post \<noteq> BT)"
  then show 1: "stageCode (escapeHtml (pre @ [BT] @ c @ [BT] @ post)) =
        escapeHtml pre @ ''<code>'' @ escapeHtml c @ ''</code>'' @ stageCode (escapeHtml post)"
    by (intro code_span_stage) simp_all
  show "renderInline (pre @ [BT] @ c @ [BT] @ post) options =
          laterStages options
            (escapeHtml pre @ ''<code>'' @ escapeHtml c @ ''</code>'' @ stageCode (escapeHtml post))"
    unfolding renderInline_def laterStages_def 1 ..
next
  assume a: "BT \<notin> set pre \<and> c \<noteq> [] \<and> BT \<notin> set c \<and> BT \<notin> set post"
  then have h: "post = [] \<or> hd post \<noteq> BT"
    by (cases post) auto
  have 1: "stageCode (escapeHtml (pre @ [BT] @ c @ [BT] @ post)) =
        escapeHtml pre @ ''<code>'' @ escapeHtml c @ ''</code>'' @ stageCode (escapeHtml post)"
    using a h by (intro code_span_stage) simp_all
  have 2: "stageCode (escapeHtml post) = escapeHtml post"
    using a by (intro code_stage_without_backtick) simp
  show "renderInline (pre @ [BT] @ c @ [BT] @ post) options =
        laterStages options (escapeHtml pre @ ''<code>'' @ escapeHtml c @ ''</code>'' @ escapeHtml post)"
    unfolding renderInline_def laterStages_def 1 2 ..
next
  assume "BT \<notin> set post"
  then show "stageCode (escapeHtml post) = escapeHtml post"
    by (rule code_stage_without_backtick)
next
  assume "BT \<notin> set pre \<and> c \<noteq> [] \<and> BT \<notin> set c \<and> (post = [] \<or> hd post \<noteq> BT)"
  then show "stageCode (escapeHtml (pre @ [BT] @ c @ [BT, BT] @ post)) =
        escapeHtml pre @ [BT] @ escapeHtml c @ [BT, BT] @ stageCode (escapeHtml post)"
    by (intro code_span_blocked) simp_all
next
  show "renderInline ''x `a_b_c` y'' defaultOpts = ''x <code>a<em>b</em>c</code> y''"
    by code_simp
qed

text \<open>
  The witness: a text with two spans, the second one in the rest after the first, and
  the same text with a second backtick behind the first span.
\<close>

theorem inline_code_span_witness:
  "BT \<notin> set ''say '' \<and> ''**a**'' \<noteq> [] \<and> BT \<notin> set ''**a**'' \<and> hd '' and `b`'' \<noteq> BT
   \<and> stageCode (escapeHtml ''say `**a**` and `b`'') = ''say <code>**a**</code> and <code>b</code>''
   \<and> renderInline ''say `**a**` and `b`'' defaultOpts =
        laterStages defaultOpts ''say <code>**a**</code> and <code>b</code>''
   \<and> stageCode (escapeHtml ''say `**a**`` and `b`'') = ''say `**a**`` and <code>b</code>''"
proof -
  have e: "escapeHtml ''say '' = ''say ''" "escapeHtml ''**a**'' = ''**a**''"
    "stageCode (escapeHtml '' and `b`'') = '' and <code>b</code>''"
    by code_simp+
  from inline_code_span[of "''say ''" "''**a**''" "'' and `b`''" defaultOpts] show ?thesis
    by (simp add: e)
qed

text \<open>
  The claim as stated says that the content is not processed by any later stage.
  Bold markers inside backticks become a \<^verbatim>\<open><strong>\<close> element.
\<close>

theorem code_span_content_is_processed:
  "renderInline ''`**a**`'' defaultOpts = ''<code><strong>a</strong></code>''
   \<and> renderInline ''`**a**`'' defaultOpts \<noteq> ''<code>**a**</code>''
   \<and> renderInline ''say `**a**` and `b`'' defaultOpts =
        ''say <code><strong>a</strong></code> and <code>b</code>''"
  by code_simp

text \<open>
  C9 does not hold of the program.  renderInline escapes its input once, as its first
  step, and the url of an image or a link is unescaped before it is escaped again for
  the attribute.  The alternative text of an image is not: the image stage passes the
  escaped text to escapeAttr, so an ampersand of the source comes out escaped twice,
  also through the public entry point.  The url next to it comes out escaped once.
\<close>

theorem image_alt_escaped_twice:
  \<open>renderInline ''![a&b](u)'' defaultOpts = ''<img src="u" alt="a&amp;amp;b"/>''
   \<and> renderInline ''![a](u?x&y)'' defaultOpts = ''<img src="u?x&amp;y" alt="a"/>''
   \<and> mdToHtml None (Some ''![a&b](u)'') defaultOpts = Some ''<p><img src="u" alt="a&amp;amp;b"/></p>''\<close>
  by code_simp


section \<open>Null and undefined sources\<close>

lemma splitLines_None: "splitLines None = [[]]"
  by code_simp

lemma segLoop_one_blank: "segLoop [[]] 0 [] = Some []"
  by code_simp

text \<open>
  C10.  With no markdown-it on the page, mdToHtml of \<^verbatim>\<open>null\<close> or \<^verbatim>\<open>undefined\<close> returns
  the empty string, whatever the options: normalizeNewlines gives the empty string, its
  one line is blank, and no block is produced.
\<close>

theorem mdToHtml_null_source:
  "mdToHtml None None options = Some []
   \<and> normalizeNewlines None = []
   \<and> segLoop (splitLines None) 0 [] = Some []"
proof -
  have n: "normalizeNewlines None = []"
    by code_simp
  have "fallbackMdToHtml None options = Some []"
    by (subst fallbackMdToHtml.simps) (simp add: splitLines_None segLoop_one_blank)
  then show ?thesis
    by (simp add: mdToHtml_def renderWithMarkdownIt_def n splitLines_None segLoop_one_blank)
qed

section \<open>The main loop\<close>

lemma fenced_step:
  "(case parseFence (lines ! i) of
      Some fence \<Rightarrow>
        (case fenceLoop (marker fence) (drop (i + 1) lines) (i + 1) [] of
           (buf, j) \<Rightarrow> (Some (Code (lang fence) (join [CHR 0x0A] buf)),
                        if j < length lines then j + 1 else j))
    | None \<Rightarrow> Y) =
   (case fencedAt lines i of Some (b, n) \<Rightarrow> (Some b, n) | None \<Rightarrow> Y)"
  by (simp add: fencedAt_def split: option.split prod.split)

lemma setext_step:
  "(case parseSetextHeading lines i of
      Some (level, txt, n) \<Rightarrow> (Some (Heading level txt), n)
    | None \<Rightarrow> Y) =
   (case setextAt lines i of Some (b, n) \<Rightarrow> (Some b, n) | None \<Rightarrow> Y)"
  by (simp add: setextAt_def split: option.split prod.split)

lemma atx_step:
  "(case parseAtxHeading (lines ! i) of
      Some (level, txt) \<Rightarrow> (Some (Heading level txt), i + 1)
    | None \<Rightarrow> Y) =
   (case atxAt lines i of Some (b, n) \<Rightarrow> (Some b, n) | None \<Rightarrow> Y)"
  by (simp add: atxAt_def split: option.split prod.split)

lemma break_step:
  "(if isThematicBreak (lines ! i) then (Some Hr, i + 1) else Y) =
   (case breakAt lines i of Some (b, n) \<Rightarrow> (Some b, n) | None \<Rightarrow> Y)"
  by (simp add: breakAt_def)

lemma paragraph_step:
  "(case parseParagraph lines i of (b, n) \<Rightarrow> (Some b, n)) =
   (case paragraphAt lines i of Some (b, n) \<Rightarrow> (Some b, n) | None \<Rightarrow> (None, i))"
  by (simp add: paragraphAt_def split: prod.split)

lemma cascade:
  "(case a1 of Some (b, n) \<Rightarrow> (Some b, n) | None \<Rightarrow>
    (case a2 of Some (b, n) \<Rightarrow> (Some b, n) | None \<Rightarrow>
    (case a3 of Some (b, n) \<Rightarrow> (Some b, n) | None \<Rightarrow>
    (case a4 of Some (b, n) \<Rightarrow> (Some b, n) | None \<Rightarrow>
    (case a5 of Some (b, n) \<Rightarrow> (Some b, n) | None \<Rightarrow>
    (case a6 of Some (b, n) \<Rightarrow> (Some b, n) | None \<Rightarrow>
    (case a7 of Some (b, n) \<Rightarrow> (Some b, n) | None \<Rightarrow>
    (case a8 of Some (b, n) \<Rightarrow> (Some b, n) | None \<Rightarrow>
    (case a9 of Some (b, n) \<Rightarrow> (Some b, n) | None \<Rightarrow> (None :: block option, i :: nat)))))))))) =
   (case firstSome [a1, a2, a3, a4, a5, a6, a7, a8, a9] of
      Some (b, n) \<Rightarrow> (Some b, n) | None \<Rightarrow> (None, i))"
  by (simp split: option.split)

lemma segStep_cascade:
  assumes "trim (lines ! i) \<noteq> []"
  shows "segStep lines i =
     (case firstSome (candidates lines i) of Some (b, n) \<Rightarrow> (Some b, n) | None \<Rightarrow> (None, i))"
  unfolding segStep_def Let_def candidates_def cascade[symmetric]
  using assms
  by (simp only: if_False fenced_step setext_step atx_step break_step paragraph_step)

lemma segStep_firstSome:
  assumes "trim (lines ! i) \<noteq> []"
  shows "\<exists>b n. firstSome (candidates lines i) = Some (b, n) \<and> segStep lines i = (Some b, n)"
proof -
  have "firstSome (candidates lines i) \<noteq> None"
    by (cases "fencedAt lines i"; cases "parseIndentedCode lines i"; cases "setextAt lines i";
        cases "atxAt lines i"; cases "breakAt lines i"; cases "parseBlockquote lines i";
        cases "parseTable lines i"; cases "parseList lines i")
       (simp_all add: candidates_def paragraphAt_def)
  then show ?thesis
    unfolding segStep_cascade[OF assms] by (auto split: option.splits)
qed


text \<open>
  C6.  At a line that is not blank, the block the main loop pushes and its new cursor are
  those of the first recogniser that matches, in the order fenced code, indented code,
  setext heading, ATX heading, thematic break, blockquote, table, list, paragraph.  A
  fence whose body line reads as an ATX heading on its own is rendered as one
  \<^verbatim>\<open><pre><code>\<close> block.
\<close>

theorem block_priority_order:
  "(trim (lines ! i) \<noteq> [] \<longrightarrow>
      (\<exists>b n. firstSome (candidates lines i) = Some (b, n) \<and> segStep lines i = (Some b, n)))
   \<and> parseAtxHeading ''# not a heading'' = Some (1, ''not a heading'')
   \<and> fallbackMdToHtml (Some (''```'' @ [CHR 0x0A] @ ''# not a heading'' @ [CHR 0x0A] @ ''```''))
         defaultOpts = Some ''<pre><code># not a heading</code></pre>''"
proof (intro conjI impI)
  assume "trim (lines ! i) \<noteq> []"
  then show "\<exists>b n. firstSome (candidates lines i) = Some (b, n) \<and> segStep lines i = (Some b, n)"
    by (rule segStep_firstSome)
next
  show "parseAtxHeading ''# not a heading'' = Some (1, ''not a heading'')"
    by code_simp
next
  show "fallbackMdToHtml (Some (''```'' @ [CHR 0x0A] @ ''# not a heading'' @ [CHR 0x0A] @ ''```''))
         defaultOpts = Some ''<pre><code># not a heading</code></pre>''"
    by code_simp
qed

theorem block_priority_order_witness:
  "trim ([''# a'', ''---''] ! 0) \<noteq> []
   \<and> (\<exists>b n. firstSome (candidates [''# a'', ''---''] 0) = Some (b, n)
          \<and> segStep [''# a'', ''---''] 0 = (Some b, n))
   \<and> segStep [''# a'', ''---''] 0 = (Some (Heading 2 ''# a''), 2)"
proof -
  have t: "trim ([''# a'', ''---''] ! 0) \<noteq> []"
    by code_simp
  have s: "segStep [''# a'', ''---''] 0 = (Some (Heading 2 ''# a''), 2)"
    by code_simp
  from block_priority_order[of "[''# a'', ''---'']" 0] t s show ?thesis
    by blast
qed

section \<open>A line the main loop never leaves\<close>

lemma segStep_dash: "segStep [''- ''] 0 = (Some (Paragraph []), 0)"
  by code_simp

lemma segLoop_dash: "segLoop [''- ''] 0 blocks = None"
proof (rule ccontr)
  assume "segLoop [''- ''] 0 blocks \<noteq> None"
  then obtain y where y: "segLoop [''- ''] 0 blocks = Some y" by blast
  have "lines = [''- ''] \<and> i = 0 \<longrightarrow> False" if "segLoop lines i bs = Some y" for lines i bs y
  proof (rule segLoop.raw_induct[where P="\<lambda>lines i bs y. lines = [''- ''] \<and> i = 0 \<longrightarrow> False", OF _ that])
    fix f :: "string list \<Rightarrow> nat \<Rightarrow> block list \<Rightarrow> block list option" and lines i bs y
    assume IH: "\<And>l i b y. f l i b = Some y \<Longrightarrow> l = [''- ''] \<and> i = 0 \<longrightarrow> False"
      and step: "(if i < length lines
          then case segStep lines i of (None, i') \<Rightarrow> f lines i' bs
               | (Some b, i') \<Rightarrow> f lines i' (bs @ [b])
          else Some bs) = Some y"
    show "lines = [''- ''] \<and> i = 0 \<longrightarrow> False"
    proof
      assume "lines = [''- ''] \<and> i = 0"
      then have "f [''- ''] 0 (bs @ [Paragraph []]) = Some y"
        using step by (simp add: segStep_dash)
      from IH[OF this] show False by simp
    qed
  qed
  with y show False by blast
qed

lemma splitLines_dash: "splitLines (Some ''- '') = [''- '']"
  by code_simp

text \<open>
  C3 fails on the program.  The source \<^verbatim>\<open>"- "\<close> (a list marker and a space, nothing
  after) is one line that no recogniser before parseParagraph takes: parseList wants
  text after the marker.  parseParagraph stops at once on the same line, because its
  test for a list marker does not want that text, and returns no lines and the cursor
  it was given.  The object is truthy, the cursor is assigned its old value, and the
  loop runs again from the same state: it never returns.
\<close>

theorem segmenter_stalls_on_bare_list_marker:
  "segStep [''- ''] 0 = (Some (Paragraph []), 0)
   \<and> segLoop [''- ''] 0 blocks = None
   \<and> fallbackMdToHtml (Some ''- '') options = None
   \<and> mdToHtml None (Some ''- '') options = None"
proof -
  have "fallbackMdToHtml (Some ''- '') options = None"
    by (subst fallbackMdToHtml.simps) (simp add: splitLines_dash segLoop_dash)
  then show ?thesis
    by (simp add: segStep_dash segLoop_dash mdToHtml_def renderWithMarkdownIt_def)
qed

end
